theory Spec2Isabelle
  imports Main
begin

section \<open>Placeholder scanner (streamHelper.js)\<close>

text \<open>
  A \<open>Uint8Array\<close> is a list of 8-bit values. Isabelle's \<open>char\<close> is exactly one byte
  (\<open>0..255\<close>), so a byte array is a \<open>string\<close> and the UTF-8 encoding of an ASCII
  literal such as \<open>$sw\<close> is the literal itself.
\<close>

type_synonym bytes = string

definition PLACEHOLDER_PREFIX :: string where
  "PLACEHOLDER_PREFIX = ''$sw''"

definition LAST_BYTES_COUNT :: nat where
  "LAST_BYTES_COUNT = 20"

text \<open>One entry of \<open>serverPreparedData.cachedParts\<close> (swConfig.js).\<close>

record part_config =
  url :: string
  placeholder :: string
  skipParameter :: string
  cacheSuffix :: string
  cacheCleanTriggerUrls :: "string list"

text \<open>\<open>{ ...c, placeholderBytes }\<close> as built by \<open>encodePlaceholderConfigs\<close>.\<close>

record encoded_config = part_config +
  placeholderBytes :: bytes

text \<open>
  Reading a typed array or a string out of range gives \<open>undefined\<close> in JavaScript;
  \<open>===\<close> on two such reads is equality of the optional values.
\<close>

definition js_index :: "'a list \<Rightarrow> nat \<Rightarrow> 'a option" where
  "js_index xs i = (if i < length xs then Some (xs ! i) else None)"

text \<open>
  \<open>Uint8Array.prototype.slice(begin, end)\<close>: a negative index counts from the end,
  both indices are clamped to the array, and an empty range gives the empty array.
\<close>

definition rel_index :: "nat \<Rightarrow> int \<Rightarrow> nat" where
  "rel_index len k = (if k < 0 then nat (max (int len + k) 0) else min (nat k) len)"

definition js_slice :: "'a list \<Rightarrow> int \<Rightarrow> int \<Rightarrow> 'a list" where
  "js_slice xs b e =
     (let from = rel_index (length xs) b; to = rel_index (length xs) e
      in take (to - from) (drop from xs))"

definition js_slice_from :: "'a list \<Rightarrow> int \<Rightarrow> 'a list" where
  "js_slice_from xs b = drop (rel_index (length xs) b) xs"

text \<open>The candidate objects of \<open>findMatchingPlaceholder\<close>.\<close>

record candidate =
  config :: encoded_config
  c_bytes :: bytes
  c_length :: nat
  matched :: bool
  finished :: bool

text \<open>The object \<open>findMatchingPlaceholder\<close> returns: the first candidate with
  \<open>start\<close> and \<open>end\<close> set.\<close>

record match_data =
  m_config :: encoded_config
  m_length :: nat
  m_start :: int
  m_end :: int

text \<open>
  One pass of the inner \<open>for\<close> loop over one candidate: the body updates the
  candidate's flags and the two accumulators, and splices the candidate out when it no
  longer matches.
\<close>

definition update_candidate :: "bytes \<Rightarrow> nat \<Rightarrow> nat \<Rightarrow> candidate \<Rightarrow> candidate" where
  "update_candidate bs i idx c =
     (let c1 = (if idx < c_length c
                then c\<lparr>matched := matched c \<and> js_index (c_bytes c) idx = js_index bs i\<rparr>
                else c)
      in if int idx = int (c_length c1) - 1 then c1\<lparr>finished := True\<rparr> else c1)"

text \<open>
  The \<open>for\<close> loop runs from the last candidate down to the first; \<open>foldr\<close> visits
  the list in that order. The state is (remaining candidates, allFinished, found).
\<close>

definition for_candidates ::
  "bytes \<Rightarrow> nat \<Rightarrow> nat \<Rightarrow> candidate list \<Rightarrow> bool \<Rightarrow> candidate list \<times> bool \<times> bool" where
  "for_candidates bs i idx cands found0 =
     foldr (\<lambda>c (kept, allFinished, found).
              let c' = update_candidate bs i idx c;
                  allFinished' = (allFinished \<and> finished c');
                  found' = (found \<or> (finished c' \<and> matched c'))
              in (if \<not> matched c' then kept else c' # kept, allFinished', found'))
           cands ([], True, found0)"

function find_loop ::
  "bytes \<Rightarrow> nat \<Rightarrow> nat \<Rightarrow> candidate list \<Rightarrow> bool \<Rightarrow> bool \<Rightarrow> nat \<times> candidate list \<times> bool" where
  "find_loop bs i idx cands allFinished found =
     (if i < length bs \<and> cands \<noteq> [] \<and> \<not> allFinished \<and> \<not> found
      then (case for_candidates bs i idx cands found of
              (cands', allFinished', found') \<Rightarrow>
                find_loop bs (i + 1) (idx + 1) cands' allFinished' found')
      else (i, cands, found))"
  by pat_completeness auto
termination
  by (relation "measure (\<lambda>(bs, i, idx, cands, af, fnd). length bs - i)") auto

declare find_loop.simps [simp del]

definition initial_candidates :: "bytes \<Rightarrow> nat \<Rightarrow> encoded_config list \<Rightarrow> candidate list" where
  "initial_candidates bs i configs =
     map (\<lambda>cfg. \<lparr>config = cfg,
                 c_bytes = placeholderBytes cfg,
                 c_length = length (placeholderBytes cfg),
                 matched = (js_index (placeholderBytes cfg) 0 = js_index bs i),
                 finished = (length (placeholderBytes cfg) = 1)\<rparr>) configs"

text \<open>
  \<open>findMatchingPlaceholder\<close>. When \<open>found\<close> is set a candidate that is finished and
  matched was kept, so \<open>candidates[0]\<close> exists (lemma \<open>find_loop_found_nonempty\<close>); the
  empty case is there only to make the function total.
\<close>

definition findMatchingPlaceholder ::
  "bytes \<Rightarrow> nat \<Rightarrow> bytes \<Rightarrow> encoded_config list \<Rightarrow> match_data option" where
  "findMatchingPlaceholder bs startIndex prefixBytes placeholderConfigs =
     (case find_loop bs (startIndex + 1) 1
             (initial_candidates bs startIndex placeholderConfigs) False False of
        (i, cands, found) \<Rightarrow>
          if found then
            (case cands of
               [] \<Rightarrow> None
             | c0 # _ \<Rightarrow>
                 Some \<lparr>m_config = config c0, m_length = c_length c0,
                       m_start = (int i - 1) - int (c_length c0) - int (length prefixBytes) + 1,
                       m_end = int i - 1\<rparr>)
          else None)"

text \<open>The inner \<open>while\<close> of \<open>extractPlaceholderChunk\<close>: advance over the bytes that
  agree with the prefix. It returns (prefixIdx, pointer).\<close>

function prefix_loop :: "bytes \<Rightarrow> bytes \<Rightarrow> nat \<Rightarrow> nat \<Rightarrow> nat \<times> nat" where
  "prefix_loop bs prefixBytes prefixIdx pointer =
     (if js_index bs pointer = js_index prefixBytes prefixIdx
         \<and> prefixIdx < length prefixBytes \<and> pointer < length bs
      then prefix_loop bs prefixBytes (prefixIdx + 1) (pointer + 1)
      else (prefixIdx, pointer))"
  by pat_completeness auto
termination
  by (relation "measure (\<lambda>(bs, p, prefixIdx, pointer). length bs - pointer)") auto

declare prefix_loop.simps [simp del]

lemma prefix_loop_pointer_mono: "pointer \<le> snd (prefix_loop bs p prefixIdx pointer)"
proof (induction bs p prefixIdx pointer rule: prefix_loop.induct)
  case (1 bs p prefixIdx pointer)
  show ?case
  proof (cases "js_index bs pointer = js_index p prefixIdx
                \<and> prefixIdx < length p \<and> pointer < length bs")
    case True
    with 1 have "pointer + 1 \<le> snd (prefix_loop bs p (prefixIdx + 1) (pointer + 1))"
      by simp
    with True show ?thesis by (subst prefix_loop.simps) simp
  next
    case False
    then show ?thesis by (subst prefix_loop.simps) auto
  qed
qed

lemma prefix_loop_pointer_le: "prefix_loop bs p prefixIdx pointer = (a, b) \<Longrightarrow> pointer \<le> b"
  using prefix_loop_pointer_mono [of pointer bs p prefixIdx] by simp

text \<open>The outer \<open>while\<close>: \<open>prefixIdx\<close> is reset to 0 at the end of every round, so every
  round starts the prefix at 0.\<close>

function scan_loop ::
  "bytes \<Rightarrow> bytes \<Rightarrow> encoded_config list \<Rightarrow> nat \<Rightarrow> match_data option \<Rightarrow> match_data option" where
  "scan_loop bs prefixBytes configs pointer found =
     (if pointer < length bs \<and> found = None
      then (case prefix_loop bs prefixBytes 0 pointer of
              (prefixIdx, pointer') \<Rightarrow>
                scan_loop bs prefixBytes configs (pointer' + 1)
                  (if prefixIdx = length prefixBytes \<and> pointer' < length bs
                   then findMatchingPlaceholder bs pointer' prefixBytes configs
                   else found))
      else found)"
  by pat_completeness auto
termination
  apply (relation "measure (\<lambda>(bs, p, configs, pointer, found). length bs - pointer)")
   apply simp
  apply (auto dest: prefix_loop_pointer_le prefix_loop_pointer_le [OF sym])
  done

declare scan_loop.simps [simp del]

text \<open>The object \<open>extractPlaceholderChunk\<close> returns; \<open>null\<close> is \<open>None\<close>.\<close>

record chunk_result =
  found :: "match_data option"
  before :: "bytes option"
  after :: "bytes option"
  leftover :: "bytes option"

definition extractPlaceholderChunk ::
  "bytes \<Rightarrow> bytes \<Rightarrow> encoded_config list \<Rightarrow> bool \<Rightarrow> chunk_result" where
  "extractPlaceholderChunk bs prefixBytes placeholderConfigs isFinal =
     (case scan_loop bs prefixBytes placeholderConfigs 0 None of
        Some m \<Rightarrow>
          \<lparr>found = Some m,
           before = Some (js_slice bs 0 (m_start m)),
           after = Some (js_slice_from bs (m_end m + 1)),
           leftover = None\<rparr>
      | None \<Rightarrow>
          if \<not> isFinal then
            (if length bs > LAST_BYTES_COUNT
             then \<lparr>found = None,
                   before = Some (js_slice bs 0 (int (length bs) - int LAST_BYTES_COUNT)),
                   after = None,
                   leftover = Some (js_slice_from bs (int (length bs) - int LAST_BYTES_COUNT))\<rparr>
             else \<lparr>found = None, before = None, after = None, leftover = Some bs\<rparr>)
          else \<lparr>found = None, before = Some bs, after = None, leftover = None\<rparr>)"

text \<open>\<open>encodePlaceholderConfigs\<close>: every placeholder must start with the prefix, or the
  function throws.\<close>

datatype error = ConfigError | FetchFailure | TypeError | RangeError

definition starts_with :: "'a list \<Rightarrow> 'a list \<Rightarrow> bool" where
  "starts_with s p = (take (length p) s = p)"

definition encode_one :: "part_config \<Rightarrow> encoded_config" where
  "encode_one c = part_config.extend c
     (encoded_config.fields (drop (length PLACEHOLDER_PREFIX) (placeholder c)))"

definition encodePlaceholderConfigs ::
  "part_config list \<Rightarrow> error + (bytes \<times> encoded_config list)" where
  "encodePlaceholderConfigs cachedParts =
     (if list_all (\<lambda>c. starts_with (placeholder c) PLACEHOLDER_PREFIX) cachedParts
      then Inr (PLACEHOLDER_PREFIX, map encode_one cachedParts)
      else Inl ConfigError)"

section \<open>Strings and regular expressions used by the worker\<close>

text \<open>\<open>s.indexOf(p) !== -1\<close>: \<open>p\<close> occurs in \<open>s\<close>; the empty string occurs everywhere.\<close>

fun contains :: "'a list \<Rightarrow> 'a list \<Rightarrow> bool" where
  "contains [] p = (p = [])"
| "contains (c # cs) p = (starts_with (c # cs) p \<or> contains cs p)"

text \<open>
  \<open>s.replace(p, r)\<close> with a string pattern replaces the first occurrence only. The
  \<open>$\<close> patterns of a replacement string are not modelled: site ids and locales do not
  contain \<open>$\<close>.
\<close>

fun replace_first :: "string \<Rightarrow> string \<Rightarrow> string \<Rightarrow> string" where
  "replace_first [] p r = (if p = [] then r else [])"
| "replace_first (c # cs) p r =
     (if starts_with (c # cs) p then r @ drop (length p) (c # cs)
      else c # replace_first cs p r)"

definition word_char :: "char \<Rightarrow> bool" where
  "word_char c = (let n = of_char c :: nat in
     (48 \<le> n \<and> n \<le> 57) \<or> (65 \<le> n \<and> n \<le> 90) \<or> (97 \<le> n \<and> n \<le> 122) \<or> n = 95)"

definition site_char :: "char \<Rightarrow> bool" where
  "site_char c = (word_char c \<or> c = CHR ''-'')"

definition ends_with :: "'a list \<Rightarrow> 'a list \<Rightarrow> bool" where
  "ends_with s p = (length p \<le> length s \<and> drop (length s - length p) s = p)"

text \<open>
  The regular expression \<open>/(Sites-[\w\-_]+-Site\/[\w]{2,7}\/)/\<close> matched at the head of
  a string. Neither character class contains \<open>/\<close>, so the site part is the run up to
  the first \<open>/\<close> (it must end in \<open>-Site\<close> after at least one other character) and the
  locale part is the run up to the next \<open>/\<close> (2 to 7 word characters). The result is
  the length of the match.
\<close>

definition site_locale_match :: "string \<Rightarrow> nat option" where
  "site_locale_match s =
     (if \<not> starts_with s ''Sites-'' then None
      else let r = drop 6 s; seg1 = takeWhile site_char r; r1 = drop (length seg1) r
           in if \<not> (ends_with seg1 ''-Site'' \<and> length seg1 > 5 \<and> starts_with r1 ''/'') then None
              else let r2 = drop 1 r1; seg2 = takeWhile word_char r2; r3 = drop (length seg2) r2
                   in if 2 \<le> length seg2 \<and> length seg2 \<le> 7 \<and> starts_with r3 ''/''
                      then Some (6 + length seg1 + 1 + length seg2 + 1) else None)"

text \<open>\<open>url.replace(/(Sites-[\w\-_]+-Site\/[\w]{2,7}\/)/, '')\<close>: the leftmost match is
  removed, once.\<close>

fun strip_site_locale :: "string \<Rightarrow> string" where
  "strip_site_locale [] = []"
| "strip_site_locale (c # cs) =
     (case site_locale_match (c # cs) of
        Some n \<Rightarrow> drop n (c # cs)
      | None \<Rightarrow> c # strip_site_locale cs)"

section \<open>Configuration and the durable cache (service worker script)\<close>

text \<open>One entry of \<open>serverPreparedData.cachedUrls\<close>.\<close>

record url_config =
  cu_url :: string
  cu_cacheSuffix :: string
  cu_cacheCleanTriggerUrls :: "string list"

record server_prepared_data =
  offlineUrl :: string
  cachedParts :: "part_config list"
  cachedUrls :: "url_config list"
  urlSiteId :: string
  urlLocale :: string
  cacheVersion :: string
  swEnabled :: bool

datatype response_type = Basic | CorsType | Opaque | OpaqueRedirect | ErrorType

record response =
  status :: nat
  rtype :: response_type
  headers :: "(string \<times> string) list"
  body :: "bytes list"

definition ok :: "response \<Rightarrow> bool" where
  "ok r = (200 \<le> status r \<and> status r \<le> 299)"

text \<open>
  A \<open>Cache\<close> is the list of its entries in insertion order, each a request URL with
  the stored response; \<open>CacheStorage\<close> is the list of named caches in creation order.
\<close>

type_synonym cache = "(string \<times> response) list"
type_synonym cache_storage = "(string \<times> cache) list"

text \<open>
  What one evaluation of the worker script reads from its surroundings: the injected
  configuration, the clock (\<open>new Date().getTime()\<close>, read once when the script is
  evaluated), the worker's own origin, the URL against which a relative cache key such as
  \<open>site.locale.suffix\<close> is resolved, and the network (the outcome of \<open>fetch\<close> for a URL).
  The browser evaluates the script again whenever it starts the worker, and then the clock
  has another value.
\<close>

record env =
  serverPreparedData :: server_prepared_data
  now :: int
  location_origin :: string
  base_url :: string
  network :: "string \<Rightarrow> error + response"

text \<open>An integer in a template literal: its decimal digits, with a sign when it is negative
  (time values are far below \<open>10\<^sup>2\<^sup>1\<close>, where the exponent notation begins).\<close>

function digits :: "int \<Rightarrow> string" where
  "digits n =
     (if n < 10 then [''0123456789'' ! nat n]
      else digits (n div 10) @ [''0123456789'' ! nat (n mod 10)])"
  by pat_completeness auto
termination by (relation "measure nat") auto

declare digits.simps [simp del]

definition js_number :: "int \<Rightarrow> string" where
  "js_number i = (if i < 0 then ''-'' @ digits (- i) else digits i)"

text \<open>\<open>self.buildSuitePreparedData.codeVersion\<close>, the template literal
  \<open>`Build-${new Date().getTime()}`\<close>.\<close>

definition codeVersion :: "env \<Rightarrow> string" where
  "codeVersion e = ''Build-'' @ js_number (now e)"

definition CACHE_ID :: "env \<Rightarrow> string" where
  "CACHE_ID e = codeVersion e @ ''_'' @ cacheVersion (serverPreparedData e)"

definition OFFLINE_URL :: "env \<Rightarrow> string" where
  "OFFLINE_URL e = offlineUrl (serverPreparedData e)"

text \<open>
  A string key is turned into a request whose URL is the key resolved against the
  worker's location: an absolute URL stays, a path starting with \<open>/\<close> is put behind the
  origin, and anything else (such as \<open>site.locale.suffix\<close>) behind the base URL.
\<close>

definition key_url :: "env \<Rightarrow> string \<Rightarrow> string" where
  "key_url e k =
     (if contains k ''://'' then k
      else if starts_with k ''/'' then location_origin e @ k
      else base_url e @ k)"

definition cache_match :: "cache \<Rightarrow> string \<Rightarrow> response option" where
  "cache_match c u = map_of c u"

definition cache_delete :: "cache \<Rightarrow> string \<Rightarrow> cache" where
  "cache_delete c u = filter (\<lambda>(k, r). k \<noteq> u) c"

definition cache_put :: "cache \<Rightarrow> string \<Rightarrow> response \<Rightarrow> cache" where
  "cache_put c u r = cache_delete c u @ [(u, r)]"

definition cache_keys :: "cache \<Rightarrow> string list" where
  "cache_keys c = map fst c"

text \<open>\<open>caches.open(name)\<close> creates the cache when it does not exist yet.\<close>

definition caches_open :: "cache_storage \<Rightarrow> string \<Rightarrow> cache_storage \<times> cache" where
  "caches_open cs name =
     (case map_of cs name of
        Some c \<Rightarrow> (cs, c)
      | None \<Rightarrow> (cs @ [(name, [])], []))"

definition caches_store :: "cache_storage \<Rightarrow> string \<Rightarrow> cache \<Rightarrow> cache_storage" where
  "caches_store cs name c = map (\<lambda>(n, old). if n = name then (n, c) else (n, old)) cs"

text \<open>\<open>caches.match(key)\<close> asks every cache in creation order.\<close>

fun caches_match :: "cache_storage \<Rightarrow> string \<Rightarrow> response option" where
  "caches_match [] u = None"
| "caches_match ((n, c) # cs) u =
     (case cache_match c u of Some r \<Rightarrow> Some r | None \<Rightarrow> caches_match cs u)"

text \<open>
  An open window of the origin (a tab): its URL and the service worker that controls it, if
  any. That is either the worker running this script or another one, such as the worker
  that was active before this one was installed.
\<close>

datatype controller = ThisWorker | OtherWorker

record client =
  cl_url :: string
  cl_controller :: "controller option"

text \<open>The state the worker changes: the durable caches, the log of URLs it fetched, its
  registration, the waiting flag, the open windows, and the URLs the worker navigated
  windows to.\<close>

record world =
  caches :: cache_storage
  fetch_log :: "string list"
  registered :: bool
  skipped_waiting :: bool
  clients :: "client list"
  navigated :: "string list"

text \<open>\<open>self.clients.matchAll()\<close> without options: \<open>includeUncontrolled\<close> is false, so the
  result holds the windows whose active service worker is this worker and no others.\<close>

definition clients_matchAll :: "world \<Rightarrow> client list" where
  "clients_matchAll w = filter (\<lambda>c. cl_controller c = Some ThisWorker) (clients w)"

definition do_fetch :: "env \<Rightarrow> world \<Rightarrow> string \<Rightarrow> (error + response) \<times> world" where
  "do_fetch e w u = (network e u, w\<lparr>fetch_log := fetch_log w @ [u]\<rparr>)"

subsection \<open>Cache invalidation index\<close>

text \<open>
  \<open>generateCacheInvalidationMap\<close>: an object used as a map. Its keys keep insertion
  order (trigger URLs are not array indices), so it is an association list.
\<close>

fun push_suffix :: "(string \<times> string list) list \<Rightarrow> string \<Rightarrow> string \<Rightarrow> (string \<times> string list) list" where
  "push_suffix [] u s = [(u, [s])]"
| "push_suffix ((k, v) # m) u s =
     (if k = u then (k, v @ [s]) # m else (k, v) # push_suffix m u s)"

definition generateCacheInvalidationMap :: "server_prepared_data \<Rightarrow> (string \<times> string list) list" where
  "generateCacheInvalidationMap d =
     (let m1 = fold (\<lambda>part m. fold (\<lambda>u m'. push_suffix m' u (cacheSuffix part))
                                    (cacheCleanTriggerUrls part) m)
                    (cachedParts d) [];
          m2 = fold (\<lambda>cfg m. fold (\<lambda>u m'. push_suffix m' u (cu_cacheSuffix cfg))
                                   (cu_cacheCleanTriggerUrls cfg) m)
                    (cachedUrls d) m1
      in m2)"

definition cacheCleanUrls :: "env \<Rightarrow> (string \<times> string list) list" where
  "cacheCleanUrls e = generateCacheInvalidationMap (serverPreparedData e)"

text \<open>
  The suffixes \<open>cleanTriggeredCache\<close> works with: the list of the first trigger that
  occurs in the shortened URL. When no trigger occurs, \<open>find\<close> gives \<open>undefined\<close> and the
  property read is that of the key \<open>undefined\<close>.
\<close>

definition triggered_suffixes :: "env \<Rightarrow> string \<Rightarrow> string list" where
  "triggered_suffixes e request_url =
     (let shortUrl = strip_site_locale request_url;
          trigger = find (\<lambda>u. contains shortUrl u) (map fst (cacheCleanUrls e));
          prop = (case trigger of Some u \<Rightarrow> u | None \<Rightarrow> ''undefined'')
      in case map_of (cacheCleanUrls e) prop of Some l \<Rightarrow> l | None \<Rightarrow> [])"

definition to_delete :: "string list \<Rightarrow> string \<Rightarrow> bool" where
  "to_delete suffixes entry_url = list_ex (\<lambda>s. contains entry_url (''.'' @ s)) suffixes"

definition cleanTriggeredCache :: "env \<Rightarrow> world \<Rightarrow> string \<Rightarrow> world" where
  "cleanTriggeredCache e w request_url =
     (let suffixes = triggered_suffixes e request_url;
          (cs, c) = caches_open (caches w) (CACHE_ID e);
          toDelete = filter (to_delete suffixes) (cache_keys c);
          c' = fold (\<lambda>k c. cache_delete c k) toDelete c
      in w\<lparr>caches := caches_store cs (CACHE_ID e) c'\<rparr>)"

subsection \<open>Requests and the fetch listener\<close>

datatype request_mode = SameOriginMode | NoCorsMode | CorsMode | NavigateMode | WebSocketMode

record request =
  r_url :: string
  r_mode :: request_mode
  r_destination :: string
  r_headers :: "(string \<times> string) list"
  r_cache :: string

definition X_SF_CC_SITEID :: string where
  "X_SF_CC_SITEID = ''x-sf-cc-siteid''"

definition X_SF_CC_REQUESTLOCALE :: string where
  "X_SF_CC_REQUESTLOCALE = ''x-sf-cc-requestlocale''"

text \<open>\<open>headers.get(name)\<close>; header names are stored in lower case.\<close>

definition headers_get :: "(string \<times> string) list \<Rightarrow> string \<Rightarrow> string option" where
  "headers_get hs name = map_of hs name"

text \<open>A template literal prints a missing value as \<open>undefined\<close>.\<close>

definition js_str :: "string option \<Rightarrow> string" where
  "js_str v = (case v of Some s \<Rightarrow> s | None \<Rightarrow> ''undefined'')"

text \<open>The URL template of a cached part or URL with the requester's site and locale put
  in place of the configured ones.\<close>

definition localized_url :: "env \<Rightarrow> string \<Rightarrow> string \<Rightarrow> string \<Rightarrow> string" where
  "localized_url e u siteId locale =
     replace_first
       (replace_first u (''-'' @ urlSiteId (serverPreparedData e) @ ''-'') (''-'' @ siteId @ ''-''))
       (''/'' @ urlLocale (serverPreparedData e) @ ''/'') (''/'' @ locale @ ''/'')"

text \<open>\<open>getAjaxCacheConfig\<close>: \<open>false\<close> and \<open>undefined\<close> are both \<open>None\<close>; an empty header
  value is falsy like a missing one.\<close>

definition getAjaxCacheConfig :: "env \<Rightarrow> request \<Rightarrow> url_config option" where
  "getAjaxCacheConfig e req =
     (case (headers_get (r_headers req) X_SF_CC_SITEID,
            headers_get (r_headers req) X_SF_CC_REQUESTLOCALE) of
        (Some siteId, Some locale) \<Rightarrow>
          if siteId = [] \<or> locale = [] then None
          else find (\<lambda>cfg. contains (r_url req) (localized_url e (cu_url cfg) siteId locale))
                 (cachedUrls (serverPreparedData e))
      | _ \<Rightarrow> None)"

text \<open>The origin of an absolute URL: everything before the third \<open>/\<close>.\<close>

fun upto_slashes :: "nat \<Rightarrow> string \<Rightarrow> string" where
  "upto_slashes n [] = []"
| "upto_slashes n (c # cs) =
     (if c = CHR ''/'' then (case n of 0 \<Rightarrow> [] | Suc m \<Rightarrow> c # upto_slashes m cs)
      else c # upto_slashes n cs)"

definition url_origin :: "string \<Rightarrow> string" where
  "url_origin u = upto_slashes 2 u"

definition isSameOrigin :: "env \<Rightarrow> string \<Rightarrow> bool" where
  "isSameOrigin e u = (url_origin (key_url e u) = location_origin e)"

text \<open>The two regular expressions of \<open>isStaticResource\<close>: \<open>.\<close> is any character but a
  line terminator, \<open>[^/]+\<close> needs one character other than \<open>/\<close>.\<close>

datatype pat = Lit char | Dot | NonSlash

fun pat_ok :: "pat \<Rightarrow> char \<Rightarrow> bool" where
  "pat_ok (Lit a) c = (a = c)"
| "pat_ok Dot c = (c \<noteq> CHR 0x0A \<and> c \<noteq> CHR 0x0D)"
| "pat_ok NonSlash c = (c \<noteq> CHR ''/'')"

fun pat_at :: "pat list \<Rightarrow> string \<Rightarrow> bool" where
  "pat_at [] s = True"
| "pat_at (p # ps) [] = False"
| "pat_at (p # ps) (c # cs) = (pat_ok p c \<and> pat_at ps cs)"

fun pat_test :: "pat list \<Rightarrow> string \<Rightarrow> bool" where
  "pat_test ps [] = pat_at ps []"
| "pat_test ps (c # cs) = (pat_at ps (c # cs) \<or> pat_test ps cs)"

definition isStaticResource :: "string \<Rightarrow> bool" where
  "isStaticResource u =
     (pat_test (map Lit ''/demandware'' @ [Dot] @ map Lit ''static/'') u
      \<and> \<not> pat_test (map Lit ''/demandware'' @ [Dot] @ map Lit ''static/-/Sites-'' @ [NonSlash]) u)"

definition isAllowedExtension :: "string \<Rightarrow> bool" where
  "isAllowedExtension u = (contains u ''.js'' \<or> contains u ''.css'')"

definition isCacheableStatic :: "request \<Rightarrow> bool" where
  "isCacheableStatic req =
     (if isStaticResource (r_url req)
      then r_destination req \<in> set [''image'', ''script'', ''style'', ''font'']
           \<or> isAllowedExtension (r_url req)
      else False)"

text \<open>
  \<open>respondToAjax\<close>. The cache write is handed to \<open>waitUntil\<close>; the state returned is the
  one after the event has finished. A failed \<open>fetch\<close> rejects the promise.
\<close>

definition ajax_key :: "request \<Rightarrow> url_config \<Rightarrow> string" where
  "ajax_key req cfg =
     js_str (headers_get (r_headers req) X_SF_CC_SITEID) @ ''.''
       @ js_str (headers_get (r_headers req) X_SF_CC_REQUESTLOCALE) @ ''.''
       @ cu_cacheSuffix cfg"

definition respondToAjax ::
  "env \<Rightarrow> world \<Rightarrow> request \<Rightarrow> url_config option \<Rightarrow> (error + response) \<times> world" where
  "respondToAjax e w req cfg_opt =
     (case cfg_opt of
        Some cfg \<Rightarrow>
          (let (cs, c) = caches_open (caches w) (CACHE_ID e);
               w0 = w\<lparr>caches := cs\<rparr>;
               key = key_url e (ajax_key req cfg)
           in case cache_match c key of
                Some cached \<Rightarrow> (Inr cached, w0)
              | None \<Rightarrow>
                  (case do_fetch e w0 (r_url req) of
                     (Inl err, w1) \<Rightarrow> (Inl err, w1)
                   | (Inr resp, w1) \<Rightarrow>
                       if ok resp
                       then (Inr resp,
                             w1\<lparr>caches := caches_store (caches w1) (CACHE_ID e) (cache_put c key resp)\<rparr>)
                       else (Inr resp, w1)))
      | None \<Rightarrow> do_fetch e w (r_url req))"

definition respondToStatic :: "env \<Rightarrow> world \<Rightarrow> request \<Rightarrow> (error + response) \<times> world" where
  "respondToStatic e w req =
     (let (cs, c) = caches_open (caches w) (CACHE_ID e);
          w0 = w\<lparr>caches := cs\<rparr>
      in case cache_match c (r_url req) of
           Some cached \<Rightarrow> (Inr cached, w0)
         | None \<Rightarrow>
             (case do_fetch e w0 (r_url req) of
                (Inl err, w1) \<Rightarrow> (Inl err, w1)
              | (Inr resp, w1) \<Rightarrow>
                  if ok resp
                  then (Inr resp,
                        w1\<lparr>caches := caches_store (caches w1) (CACHE_ID e)
                                        (cache_put c (r_url req) resp)\<rparr>)
                  else (Inr resp, w1)))"

section \<open>Stream rewriter (createStream)\<close>

text \<open>
  What a promise in the queue resolves to: \<open>{ done, value, merge, isBase }\<close>. A missing
  \<open>value\<close> is \<open>None\<close>, a missing flag is \<open>False\<close>. A queue entry is a promise: \<open>Inl\<close> is
  a rejected one.
\<close>

record item =
  item_value :: "bytes option"
  item_done :: bool
  item_merge :: bool
  item_isBase :: bool

datatype stream_status = Readable | Closed | Errored error

text \<open>
  The stream object: the fields \<open>this.*\<close> set by \<open>start\<close> and \<open>pull\<close>, the chunks still
  to come from the upstream reader, the site and locale headers captured by
  \<open>createStream\<close>, and on the consumer's side the chunks enqueued so far and whether the
  controller was closed or the stream failed.
\<close>

record stream_state =
  reader :: "bytes list"
  s_prefixBytes :: bytes
  s_configs :: "encoded_config list"
  queue :: "(error + item) list"
  s_done :: bool
  s_siteId :: "string option"
  s_locale :: "string option"
  s_output :: "bytes list"
  s_status :: stream_status

text \<open>\<open>readChunk\<close>: the next upstream chunk, or \<open>{ done: true }\<close> after the last one.\<close>

definition readChunk :: "bytes list \<Rightarrow> item \<times> bytes list" where
  "readChunk rd =
     (case rd of
        [] \<Rightarrow> (\<lparr>item_value = None, item_done = True, item_merge = False, item_isBase = True\<rparr>, [])
      | c # rest \<Rightarrow>
          (\<lparr>item_value = Some c, item_done = False, item_merge = False, item_isBase = True\<rparr>, rest))"

text \<open>
  \<open>fetchOrCachePart\<close>. The part is looked up in every cache, fetched on a miss, and
  stored in the named cache when the response is ok. The body of the response is the
  value whatever its status; a failed \<open>fetch\<close> rejects the promise.
\<close>

definition part_key :: "encoded_config \<Rightarrow> string option \<Rightarrow> string option \<Rightarrow> string" where
  "part_key partConfig siteId locale =
     js_str siteId @ ''.'' @ js_str locale @ ''.'' @ cacheSuffix partConfig"

definition fetchOrCachePart ::
  "env \<Rightarrow> world \<Rightarrow> encoded_config \<Rightarrow> string option \<Rightarrow> string option \<Rightarrow> string
     \<Rightarrow> (error + item) \<times> world" where
  "fetchOrCachePart e w partConfig siteId locale cacheId =
     (let key = key_url e (part_key partConfig siteId locale)
      in case caches_match (caches w) key of
           Some resp \<Rightarrow>
             (Inr \<lparr>item_value = Some (concat (body resp)), item_done = False,
                   item_merge = False, item_isBase = False\<rparr>, w)
         | None \<Rightarrow>
             (case do_fetch e w (localized_url e (url partConfig) (js_str siteId) (js_str locale)) of
                (Inl err, w1) \<Rightarrow> (Inl err, w1)
              | (Inr resp, w1) \<Rightarrow>
                  (let w2 = (if ok resp
                             then (let (cs, c) = caches_open (caches w1) cacheId
                                   in w1\<lparr>caches := caches_store cs cacheId (cache_put c key resp)\<rparr>)
                             else w1)
                   in (Inr \<lparr>item_value = Some (concat (body resp)), item_done = False,
                            item_merge = False, item_isBase = False\<rparr>, w2))))"

text \<open>The \<open>while\<close> loop of \<open>nextFromQueue\<close>: a merge item swallows the items behind it.\<close>

fun merge_items :: "item \<Rightarrow> (error + item) list \<Rightarrow> error + (item \<times> (error + item) list)" where
  "merge_items it [] = Inr (it, [])"
| "merge_items it (p # q) =
     (if item_merge it
      then (case p of
              Inl err \<Rightarrow> Inl err
            | Inr next \<Rightarrow>
                merge_items
                  (it\<lparr>item_done := item_done it \<or> item_done next,
                      item_merge := item_merge next,
                      item_isBase := item_isBase next,
                      item_value :=
                        (case item_value next of
                           Some v \<Rightarrow> Some ((case item_value it of Some x \<Rightarrow> x | None \<Rightarrow> []) @ v)
                         | None \<Rightarrow> item_value it)\<rparr>)
                  q)
      else Inr (it, p # q))"

text \<open>\<open>nextFromQueue\<close>; reading a flag of the missing head of an empty queue throws.\<close>

definition nextFromQueue :: "(error + item) list \<Rightarrow> error + (item \<times> (error + item) list)" where
  "nextFromQueue q =
     (case q of
        [] \<Rightarrow> Inl TypeError
      | Inl err # q' \<Rightarrow> Inl err
      | Inr it # q' \<Rightarrow> merge_items it q')"

text \<open>
  One round of \<open>pull\<close> up to its recursive call. The result says whether \<open>pull\<close> goes
  on (\<open>True\<close>) or has returned.
\<close>

definition pull_step :: "env \<Rightarrow> string \<Rightarrow> stream_state \<times> world \<Rightarrow> bool \<times> stream_state \<times> world" where
  "pull_step e cacheId sw =
     (case sw of (s, w) \<Rightarrow>
        if queue s = [] \<or> s_done s then (False, s\<lparr>s_status := Closed\<rparr>, w)
        else (case nextFromQueue (queue s) of
                Inl err \<Rightarrow> (False, s\<lparr>s_status := Errored err\<rparr>, w)
              | Inr (it, q) \<Rightarrow>
                  (let d = (s_done s \<or> item_done it) in
                   case item_value it of
                     None \<Rightarrow>
                       if d then (False, s\<lparr>queue := q, s_done := d, s_status := Closed\<rparr>, w)
                       else (False, s\<lparr>queue := q, s_done := d, s_status := Errored TypeError\<rparr>, w)
                   | Some v \<Rightarrow>
                       (let r = extractPlaceholderChunk v (s_prefixBytes s) (s_configs s) d;
                            out = (case before r of Some b \<Rightarrow> s_output s @ [b] | None \<Rightarrow> s_output s);
                            q1 = (case leftover r of
                                    Some l \<Rightarrow> Inr \<lparr>item_value = Some l, item_done = False,
                                                   item_merge = True, item_isBase = False\<rparr> # q
                                  | None \<Rightarrow> q);
                            q2 = (case after r of
                                    Some a \<Rightarrow> Inr \<lparr>item_value = Some a, item_done = False,
                                                   item_merge = False, item_isBase = False\<rparr> # q1
                                  | None \<Rightarrow> q1);
                            (q3, w') = (case found r of
                                          Some m \<Rightarrow>
                                            (case fetchOrCachePart e w (m_config m)
                                                    (s_siteId s) (s_locale s) cacheId of
                                               (p, w') \<Rightarrow> (p # q2, w'))
                                        | None \<Rightarrow> (q2, w));
                            (q4, rd) = (if \<not> d \<and> item_isBase it
                                        then (case readChunk (reader s) of
                                                (next, rest) \<Rightarrow> (q3 @ [Inr next], rest))
                                        else (q3, reader s))
                        in (True, s\<lparr>queue := q4, s_done := d, s_output := out, reader := rd\<rparr>, w')))))"

text \<open>
  \<open>pull\<close> calls itself until it closes the controller or throws. A part whose content
  holds its own placeholder keeps it going for ever, so the model counts rounds:
  \<open>None\<close> means the rounds given were not enough.
\<close>

fun pull :: "nat \<Rightarrow> env \<Rightarrow> string \<Rightarrow> stream_state \<times> world \<Rightarrow> (stream_state \<times> world) option" where
  "pull 0 e cacheId sw = None"
| "pull (Suc n) e cacheId sw =
     (case pull_step e cacheId sw of
        (True, sw') \<Rightarrow> pull n e cacheId sw'
      | (False, sw') \<Rightarrow> Some sw')"

text \<open>
  The stream that \<open>createStream\<close> builds, up to the first \<open>pull\<close>: the headers of the
  base response give the site and the locale, \<open>start\<close> encodes the placeholders (and fails
  the stream when one lacks the prefix) and queues the first read. Wrapping the stream in
  a response is \<open>new_Response\<close> below.
\<close>

definition createStream :: "response \<Rightarrow> part_config list \<Rightarrow> stream_state" where
  "createStream baseResponse parts =
     (let siteId = headers_get (headers baseResponse) X_SF_CC_SITEID;
          locale = headers_get (headers baseResponse) X_SF_CC_REQUESTLOCALE
      in case encodePlaceholderConfigs parts of
           Inl err \<Rightarrow>
             \<lparr>reader = body baseResponse, s_prefixBytes = [], s_configs = [], queue = [],
              s_done = False, s_siteId = siteId, s_locale = locale, s_output = [],
              s_status = Errored err\<rparr>
         | Inr (prefixBytes, configs) \<Rightarrow>
             (case readChunk (body baseResponse) of
                (first, rest) \<Rightarrow>
                  \<lparr>reader = rest, s_prefixBytes = prefixBytes, s_configs = configs,
                   queue = [Inr first], s_done = False, s_siteId = siteId, s_locale = locale,
                   s_output = [], s_status = Readable\<rparr>))"

text \<open>Reading the rewritten body to its end: the stream after enough rounds of \<open>pull\<close>.\<close>

definition read_stream :: "nat \<Rightarrow> env \<Rightarrow> stream_state \<times> world \<Rightarrow> (stream_state \<times> world) option" where
  "read_stream n e sw =
     (case s_status (fst sw) of
        Readable \<Rightarrow> pull n e (CACHE_ID e) sw
      | _ \<Rightarrow> Some sw)"

definition emitted :: "stream_state \<Rightarrow> bytes" where
  "emitted s = concat (s_output s)"

section \<open>Navigation, installation and dispatch\<close>

subsection \<open>The URL of the navigation request\<close>

text \<open>A string up to the first occurrence of a character, and what follows that
  occurrence when there is one.\<close>

definition cut_at :: "char \<Rightarrow> string \<Rightarrow> string \<times> string option" where
  "cut_at c s =
     (takeWhile (\<lambda>x. x \<noteq> c) s,
      if c \<in> set s then Some (drop 1 (dropWhile (\<lambda>x. x \<noteq> c) s)) else None)"

text \<open>Splitting a string on a character, as the parser of
  \<open>application/x-www-form-urlencoded\<close> splits a query on \<open>&\<close>.\<close>

fun split_on :: "char \<Rightarrow> string \<Rightarrow> string list" where
  "split_on c [] = [[]]"
| "split_on c (x # xs) =
     (if x = c then [] # split_on c xs
      else (case split_on c xs of
              w # ws \<Rightarrow> (x # w) # ws
            | [] \<Rightarrow> [[x]]))"

text \<open>Percent-decoding: \<open>%\<close> followed by two hexadecimal digits is the byte they denote;
  any other \<open>%\<close> stays.\<close>

definition hex_digit :: "char \<Rightarrow> nat option" where
  "hex_digit c =
     (let n = of_char c :: nat
      in if 48 \<le> n \<and> n \<le> 57 then Some (n - 48)
         else if 65 \<le> n \<and> n \<le> 70 then Some (n - 55)
         else if 97 \<le> n \<and> n \<le> 102 then Some (n - 87)
         else None)"

fun percent_decode :: "string \<Rightarrow> string" where
  "percent_decode [] = []"
| "percent_decode (c # cs) =
     (if c = CHR ''%''
      then (case cs of
              h1 # h2 # rest \<Rightarrow>
                (case (hex_digit h1, hex_digit h2) of
                   (Some a, Some b) \<Rightarrow> char_of (16 * a + b) # percent_decode rest
                 | _ \<Rightarrow> c # percent_decode cs)
            | _ \<Rightarrow> c # percent_decode cs)
      else c # percent_decode cs)"

text \<open>
  Decoding bytes as UTF-8 and encoding the result again, which is what happens to a name
  or value between the parsing of a query and its serialisation. The decoder is the one of
  the Encoding standard: a well-formed sequence comes out as it went in, and each
  ill-formed part is replaced by U+FFFD, whose encoding is \<open>EF BF BD\<close>. The state is the
  bytes of the sequence seen so far, the number of bytes still needed, and the bounds of
  the next byte.
\<close>

definition REPLACEMENT :: string where
  "REPLACEMENT = [CHR 0xEF, CHR 0xBF, CHR 0xBD]"

fun utf8_loop :: "string \<Rightarrow> nat \<Rightarrow> nat \<Rightarrow> nat \<Rightarrow> string \<Rightarrow> string" where
  "utf8_loop seen needed lower upper [] = (if needed \<noteq> 0 then REPLACEMENT else [])"
| "utf8_loop seen needed lower upper (c # cs) =
     (let b = of_char c :: nat
      in if needed = 0
         then (if b \<le> 0x7F then c # utf8_loop [] 0 0x80 0xBF cs
               else if 0xC2 \<le> b \<and> b \<le> 0xDF then utf8_loop [c] 1 0x80 0xBF cs
               else if 0xE0 \<le> b \<and> b \<le> 0xEF
               then utf8_loop [c] 2 (if b = 0xE0 then 0xA0 else 0x80) (if b = 0xED then 0x9F else 0xBF) cs
               else if 0xF0 \<le> b \<and> b \<le> 0xF4
               then utf8_loop [c] 3 (if b = 0xF0 then 0x90 else 0x80) (if b = 0xF4 then 0x8F else 0xBF) cs
               else REPLACEMENT @ utf8_loop [] 0 0x80 0xBF cs)
         else if b < lower \<or> upper < b
         then REPLACEMENT @ utf8_loop [] 0 0x80 0xBF (c # cs)
         else if needed = 1 then seen @ [c] @ utf8_loop [] 0 0x80 0xBF cs
         else utf8_loop (seen @ [c]) (needed - 1) 0x80 0xBF cs)"

definition utf8_decode_encode :: "string \<Rightarrow> string" where
  "utf8_decode_encode bs = utf8_loop [] 0 0x80 0xBF bs"

text \<open>The parser of \<open>application/x-www-form-urlencoded\<close>: empty sequences are skipped, a
  sequence is cut at its first \<open>=\<close>, \<open>+\<close> stands for a space.\<close>

definition form_decode :: "string \<Rightarrow> string" where
  "form_decode s =
     utf8_decode_encode (percent_decode (map (\<lambda>c. if c = CHR ''+'' then CHR '' '' else c) s))"

definition urlencoded_parse :: "string \<Rightarrow> (string \<times> string) list" where
  "urlencoded_parse q =
     map (\<lambda>sq. (form_decode (takeWhile (\<lambda>c. c \<noteq> CHR ''='') sq),
                 form_decode (drop 1 (dropWhile (\<lambda>c. c \<noteq> CHR ''='') sq))))
         (filter (\<lambda>sq. sq \<noteq> []) (split_on CHR ''&'' q))"

text \<open>The serialiser: letters, digits and \<open>*-._\<close> stay, a space becomes \<open>+\<close>, every other
  byte is percent-encoded with upper-case digits; the pairs are joined with \<open>&\<close>.\<close>

definition form_encode_byte :: "char \<Rightarrow> string" where
  "form_encode_byte c =
     (let n = of_char c :: nat
      in if c = CHR '' '' then ''+''
         else if (48 \<le> n \<and> n \<le> 57) \<or> (65 \<le> n \<and> n \<le> 90) \<or> (97 \<le> n \<and> n \<le> 122)
                 \<or> c \<in> set ''*-._''
         then [c]
         else [CHR ''%'', ''0123456789ABCDEF'' ! (n div 16), ''0123456789ABCDEF'' ! (n mod 16)])"

definition form_encode :: "string \<Rightarrow> string" where
  "form_encode s = concat (map form_encode_byte s)"

fun join_with :: "string \<Rightarrow> string list \<Rightarrow> string" where
  "join_with sep [] = []"
| "join_with sep [x] = x"
| "join_with sep (x # y # ys) = x @ sep @ join_with sep (y # ys)"

definition urlencoded_serialize :: "(string \<times> string) list \<Rightarrow> string" where
  "urlencoded_serialize l = join_with ''&'' (map (\<lambda>(n, v). form_encode n @ ''='' @ form_encode v) l)"

text \<open>
  A \<open>URL\<close> object. A request URL is a serialised URL, so \<open>new URL\<close> finds its parts where
  the serialiser put them: the fragment behind the first \<open>#\<close>, the query between the first
  \<open>?\<close> and the fragment, and scheme, host and path in front. The list of \<open>searchParams\<close>
  is the parsed query.
\<close>

record url_record =
  u_base :: string
  u_query :: "string option"
  u_fragment :: "string option"
  u_searchParams :: "(string \<times> string) list"

definition new_URL :: "string \<Rightarrow> url_record" where
  "new_URL s =
     (let (front, fragment) = cut_at CHR ''#'' s;
          (base, query) = cut_at CHR ''?'' front
      in \<lparr>u_base = base, u_query = query, u_fragment = fragment,
          u_searchParams = (case query of Some q \<Rightarrow> urlencoded_parse q | None \<Rightarrow> [])\<rparr>)"

text \<open>\<open>url.searchParams.append(name, value)\<close>: the pair is added to the list and the query
  of the URL becomes the serialisation of the whole list.\<close>

definition searchParams_append :: "url_record \<Rightarrow> string \<Rightarrow> string \<Rightarrow> url_record" where
  "searchParams_append u name v =
     (let l = u_searchParams u @ [(name, v)];
          serializedQuery = urlencoded_serialize l
      in u\<lparr>u_searchParams := l,
           u_query := (if serializedQuery = [] then None else Some serializedQuery)\<rparr>)"

text \<open>\<open>url.href\<close>, the serialised URL.\<close>

definition href :: "url_record \<Rightarrow> string" where
  "href u =
     u_base u @ (case u_query u of Some q \<Rightarrow> ''?'' @ q | None \<Rightarrow> [])
       @ (case u_fragment u of Some f \<Rightarrow> ''#'' @ f | None \<Rightarrow> [])"

text \<open>
  \<open>new Request(url, init)\<close> with the init of \<open>addSkipParamsToRequest\<close>, as far as the URL
  of the new request goes. No mode is given, so the mode of the new request is \<open>cors\<close>, and
  the constructor throws a \<open>TypeError\<close> when \<open>init.cache\<close> is \<open>only-if-cached\<close>, which it
  accepts with the mode \<open>same-origin\<close> alone.
\<close>

definition new_Request :: "url_record \<Rightarrow> request \<Rightarrow> error + string" where
  "new_Request u originalRequest =
     (if r_cache originalRequest = ''only-if-cached'' then Inl TypeError else Inr (href u))"

text \<open>\<open>addSkipParamsToRequest\<close>: the URL of the new request, unless the constructor
  throws. Strings are held as their UTF-8 bytes.\<close>

definition addSkipParamsToRequest :: "env \<Rightarrow> request \<Rightarrow> error + string" where
  "addSkipParamsToRequest e req =
     new_Request (fold (\<lambda>part u. if skipParameter part \<noteq> []
                                   then searchParams_append u (skipParameter part) ''true'' else u)
                       (cachedParts (serverPreparedData e)) (new_URL (r_url req)))
                 req"

subsection \<open>Navigation\<close>

text \<open>
  \<open>new Response(stream, headersInit)\<close>, the last statement of \<open>createStream\<close>. The
  constructor throws a \<open>RangeError\<close> unless the status lies between 200 and 599, and a
  \<open>TypeError\<close> when a body is given with a null body status (101, 103, 204, 205, 304).
\<close>

definition null_body_status :: "nat \<Rightarrow> bool" where
  "null_body_status n = (n \<in> set [101, 103, 204, 205, 304])"

definition new_Response :: "stream_state \<Rightarrow> response \<Rightarrow> error + stream_state" where
  "new_Response stream baseResponse =
     (if status baseResponse < 200 \<or> 599 < status baseResponse then Inl RangeError
      else if null_body_status (status baseResponse) then Inl TypeError
      else Inr stream)"

text \<open>
  What \<open>respondToNavigation\<close> resolves to. The rewritten response is returned before
  any of its body is read: it carries the stream as \<open>createStream\<close> left it. The offline
  answer is whatever \<open>cache.match(OFFLINE_URL)\<close> gives, \<open>undefined\<close> included.
\<close>

datatype nav_result =
    BasicAuthFallback
  | Unmodified response
  | Rewritten stream_state
  | Offline "response option"

text \<open>The \<open>catch\<close> block of \<open>respondToNavigation\<close>.\<close>

definition offline_response :: "env \<Rightarrow> world \<Rightarrow> nav_result \<times> world" where
  "offline_response e w =
     (let (cs, c) = caches_open (caches w) (CACHE_ID e)
      in (Offline (cache_match c (key_url e (OFFLINE_URL e))), w\<lparr>caches := cs\<rparr>))"

text \<open>\<open>respondToNavigation\<close>: what is thrown inside \<open>try\<close>, by the constructor of the
  new request, by \<open>fetch\<close> or by the constructor at the end of \<open>createStream\<close>, leads to
  the \<open>catch\<close> block.\<close>

definition respondToNavigation :: "env \<Rightarrow> world \<Rightarrow> request \<Rightarrow> nav_result \<times> world" where
  "respondToNavigation e w req =
     (let w1 = cleanTriggeredCache e w (r_url req)
      in case addSkipParamsToRequest e req of
           Inl err \<Rightarrow> offline_response e w1
         | Inr modifiedRequest \<Rightarrow>
             (case do_fetch e w1 modifiedRequest of
                (Inl err, w2) \<Rightarrow> offline_response e w2
              | (Inr networkResponse, w2) \<Rightarrow>
                  if status networkResponse = 401 then (BasicAuthFallback, w2)
                  else if status networkResponse \<in> set [301, 302]
                          \<or> rtype networkResponse = OpaqueRedirect
                  then (Unmodified networkResponse, w2)
                  else (case new_Response
                               (createStream networkResponse (cachedParts (serverPreparedData e)))
                               networkResponse of
                          Inl err \<Rightarrow> offline_response e w2
                        | Inr stream \<Rightarrow> (Rewritten stream, w2))))"

text \<open>\<open>clearOldCaches\<close>: every cache but the one of the current generation is deleted.\<close>

definition clearOldCaches :: "env \<Rightarrow> cache_storage \<Rightarrow> cache_storage" where
  "clearOldCaches e cs =
     (let names = map fst cs;
          old = filter (\<lambda>name. name \<noteq> CACHE_ID e) names
      in fold (\<lambda>n cs'. filter (\<lambda>(name, c). name \<noteq> n) cs') old cs)"

text \<open>\<open>precacheOfflinePage\<close>: \<open>cache.add\<close> fetches the page and rejects unless the
  response is ok.\<close>

definition precacheOfflinePage :: "env \<Rightarrow> world \<Rightarrow> error + world" where
  "precacheOfflinePage e w =
     (let (cs, c) = caches_open (caches w) (CACHE_ID e)
      in case do_fetch e (w\<lparr>caches := cs\<rparr>) (OFFLINE_URL e) of
           (Inl err, w1) \<Rightarrow> Inl err
         | (Inr resp, w1) \<Rightarrow>
             if ok resp
             then Inr (w1\<lparr>caches := caches_store (caches w1) (CACHE_ID e)
                                       (cache_put c (key_url e (OFFLINE_URL e)) resp)\<rparr>)
             else Inl TypeError)"

text \<open>The \<open>install\<close> listener: the kill switch, or the normal installation. The kill
  switch navigates every window that \<open>matchAll\<close> returns to its own URL.\<close>

definition on_install :: "env \<Rightarrow> world \<Rightarrow> error + world" where
  "on_install e w =
     (if \<not> swEnabled (serverPreparedData e)
      then Inr (w\<lparr>caches := clearOldCaches e (caches w),
                  registered := False,
                  navigated := navigated w @ map cl_url (clients_matchAll w)\<rparr>)
      else (case precacheOfflinePage e w of
              Inl err \<Rightarrow> Inl err
            | Inr w1 \<Rightarrow> Inr (w1\<lparr>skipped_waiting := True\<rparr>)))"

text \<open>The \<open>fetch\<close> listener: which branch handles a request.\<close>

datatype action =
    RespondAjax url_config
  | InvalidationOnly
  | RespondNavigation
  | RespondStatic
  | NoOverride

definition dispatch :: "env \<Rightarrow> request \<Rightarrow> action" where
  "dispatch e req =
     (let ajaxConfig = getAjaxCacheConfig e req
      in if isSameOrigin e (r_url req) \<and> ajaxConfig \<noteq> None
         then (case ajaxConfig of Some cfg \<Rightarrow> RespondAjax cfg | None \<Rightarrow> NoOverride)
         else if r_mode req = SameOriginMode then InvalidationOnly
         else if r_mode req = NavigateMode then RespondNavigation
         else if isCacheableStatic req then RespondStatic
         else NoOverride)"

text \<open>What the listener hands to \<open>respondWith\<close>, if anything.\<close>

datatype override =
    AjaxResponse "error + response"
  | NavigationResponse nav_result
  | StaticResponse "error + response"

definition on_fetch :: "env \<Rightarrow> world \<Rightarrow> request \<Rightarrow> override option \<times> world" where
  "on_fetch e w req =
     (case dispatch e req of
        RespondAjax cfg \<Rightarrow>
          (case respondToAjax e w req (Some cfg) of (r, w') \<Rightarrow> (Some (AjaxResponse r), w'))
      | InvalidationOnly \<Rightarrow> (None, cleanTriggeredCache e w (r_url req))
      | RespondNavigation \<Rightarrow>
          (case respondToNavigation e w req of (r, w') \<Rightarrow> (Some (NavigationResponse r), w'))
      | RespondStatic \<Rightarrow>
          (case respondToStatic e w req of (r, w') \<Rightarrow> (Some (StaticResponse r), w'))
      | NoOverride \<Rightarrow> (None, w))"

section \<open>The configuration of swConfig.js\<close>

text \<open>
  \<open>getInitConfig\<close> for a site \<open>RefArch\<close> with locale \<open>en_US\<close>. \<open>URLUtils.url\<close> and
  \<open>URLUtils.staticURL\<close> belong to the platform; \<open>url_of\<close> gives the URLs they produce
  for this site.
\<close>

definition url_of :: "string \<Rightarrow> string" where
  "url_of action = ''/on/demandware.store/Sites-RefArch-Site/en_US/'' @ action"

definition buildRelativeUrls :: "string list \<Rightarrow> string list" where
  "buildRelativeUrls actions = map (\<lambda>action. strip_site_locale (url_of action)) actions"

definition layoutCacheInvalidationRoutes :: "string list" where
  "layoutCacheInvalidationRoutes =
     [''Account-Login'', ''Account-SaveNewPassword'', ''Account-SubmitRegistration'',
      ''Login-Logout'']"

definition minicartCacheInvalidationRoutes :: "string list" where
  "minicartCacheInvalidationRoutes =
     [''Cart-AddProduct'', ''Cart-Show'', ''Cart-UpdateQuantity'', ''Cart-RemoveProductLineItem'',
      ''Cart-AddCoupon'', ''Cart-RemoveCouponLineItem'', ''Cart-EditProductLineItem'',
      ''CSRF-AjaxFail'', ''CSRF-Fail'', ''CheckoutServices-PlaceOrder'', ''Order-Confirm'',
      ''COPlaceOrder-Submit'', ''Account-Login'', ''Login-Logout'']"

definition wishlistCacheInvalidationRoutes :: "string list" where
  "wishlistCacheInvalidationRoutes =
     [''Wishlist-AddProduct'', ''Wishlist-RemoveProduct'', ''Wishlist-EditProductListItem'']"

definition header_part :: part_config where
  "header_part =
     \<lparr>url = url_of ''Page-IncludeHeaderMenu?sw=true'', placeholder = ''$swheader$'',
      skipParameter = ''sw_skipheader'', cacheSuffix = ''header'',
      cacheCleanTriggerUrls = buildRelativeUrls layoutCacheInvalidationRoutes\<rparr>"

definition footer_part :: part_config where
  "footer_part =
     \<lparr>url = url_of ''Page-IncludeFooter?sw=true'', placeholder = ''$swfooter$'',
      skipParameter = ''sw_skipfooter'', cacheSuffix = ''footer'',
      cacheCleanTriggerUrls = buildRelativeUrls layoutCacheInvalidationRoutes\<rparr>"

definition minicart_url :: url_config where
  "minicart_url =
     \<lparr>cu_url = url_of ''Cart-MiniCartShow'', cu_cacheSuffix = ''MiniCartShow'',
      cu_cacheCleanTriggerUrls = buildRelativeUrls minicartCacheInvalidationRoutes\<rparr>"

definition wishlist_url :: url_config where
  "wishlist_url =
     \<lparr>cu_url = url_of ''Wishlist-Show'', cu_cacheSuffix = ''WishlistShow'',
      cu_cacheCleanTriggerUrls = buildRelativeUrls wishlistCacheInvalidationRoutes\<rparr>"

definition getInitConfig :: "bool \<Rightarrow> server_prepared_data" where
  "getInitConfig enabled =
     \<lparr>offlineUrl = ''/on/demandware.static/Sites-RefArch-Site/-/default/dw4ae791b3/offline.html'',
      cachedParts = [header_part, footer_part],
      cachedUrls = [minicart_url, wishlist_url],
      urlSiteId = ''RefArch'', urlLocale = ''en_US'',
      cacheVersion = ''dw4ae791b3'', swEnabled = enabled\<rparr>"

text \<open>The encoded placeholders of this configuration, and responses, a worker and a
  state to run the examples on.\<close>

definition header_config :: encoded_config where
  "header_config = encode_one header_part"

definition footer_config :: encoded_config where
  "footer_config = encode_one footer_part"

definition page :: "bytes list \<Rightarrow> response" where
  "page chunks =
     \<lparr>status = 200, rtype = Basic,
      headers = [(X_SF_CC_SITEID, ''RefArch''), (X_SF_CC_REQUESTLOCALE, ''en_US'')],
      body = chunks\<rparr>"

definition shop_env :: "bool \<Rightarrow> (string \<Rightarrow> error + response) \<Rightarrow> env" where
  "shop_env enabled net =
     \<lparr>serverPreparedData = getInitConfig enabled, now = 1762041600000,
      location_origin = ''https://shop.example'', base_url = ''https://shop.example/'',
      network = net\<rparr>"

definition fresh_world :: world where
  "fresh_world =
     \<lparr>caches = [], fetch_log = [], registered = True, skipped_waiting = False,
      clients = [], navigated = []\<rparr>"

section \<open>Notions and data used in the statements\<close>

text \<open>The byte length of the longest configured token, prefix included.\<close>

definition longest_token :: "bytes \<Rightarrow> encoded_config list \<Rightarrow> nat" where
  "longest_token prefixBytes configs =
     fold max (map (\<lambda>c. length prefixBytes + length (placeholderBytes c)) configs) 0"

text \<open>A part with a placeholder of one's own choosing, for the examples.\<close>

definition part_with :: "string \<Rightarrow> string \<Rightarrow> part_config" where
  "part_with ph suffix =
     \<lparr>url = url_of (''Page-Include?part='' @ suffix), placeholder = ph,
      skipParameter = ''sw_skip'' @ suffix, cacheSuffix = suffix,
      cacheCleanTriggerUrls = buildRelativeUrls layoutCacheInvalidationRoutes\<rparr>"

text \<open>An ok response whose body is one chunk.\<close>

definition stored :: "string \<Rightarrow> response" where
  "stored content = \<lparr>status = 200, rtype = Basic, headers = [], body = [content]\<rparr>"

text \<open>The cache of the current generation, as \<open>caches.open(CACHE_ID)\<close> hands it out.\<close>

definition active_cache :: "env \<Rightarrow> world \<Rightarrow> cache" where
  "active_cache e w = snd (caches_open (caches w) (CACHE_ID e))"

text \<open>A state with parts cached for two locales and a cached wish list, and a network
  that answers the mini cart, the home page and the footer but not the header.\<close>

definition shop_network :: "string \<Rightarrow> error + response" where
  "shop_network u =
     (if contains u ''Cart-MiniCartShow'' then Inr (stored ''<div>2 items</div>'')
      else if contains u ''Home-Show''
      then Inr (page [''<html>$swheader$<main>'', ''</main>$swfooter$</html>''])
      else if contains u ''Page-IncludeFooter'' then Inr (stored ''<footer/>'')
      else Inl FetchFailure)"

definition stocked_world :: world where
  "stocked_world =
     fresh_world\<lparr>caches :=
       [(''Build-1762041600000_dw4ae791b3'',
         [(''https://shop.example/RefArch.en_US.header'', stored ''<nav>en</nav>''),
          (''https://shop.example/RefArch.fr_FR.header'', stored ''<nav>fr</nav>''),
          (''https://shop.example/RefArch.en_US.WishlistShow'', stored ''<ul/>'')])]\<rparr>"

definition login_url :: string where
  "login_url = ''https://shop.example'' @ url_of ''Account-Login''"

text \<open>A worker with a second part whose suffix, \<open>headerPromo\<close>, begins like the suffix
  of the header and which no trigger names, and a state with both parts cached.\<close>

definition promo_env :: env where
  "promo_env =
     \<lparr>serverPreparedData =
        (getInitConfig True)
          \<lparr>cachedParts := [header_part, (part_with ''$swpromo$'' ''headerPromo'')\<lparr>cacheCleanTriggerUrls := []\<rparr>],
           cachedUrls := []\<rparr>,
      now = 1762041600000, location_origin = ''https://shop.example'',
      base_url = ''https://shop.example/'', network = shop_network\<rparr>"

definition promo_world :: world where
  "promo_world =
     fresh_world\<lparr>caches :=
       [(''Build-1762041600000_dw4ae791b3'',
         [(''https://shop.example/RefArch.en_US.header'', stored ''<nav>en</nav>''),
          (''https://shop.example/RefArch.en_US.headerPromo'', stored ''<aside/>'')])]\<rparr>"

definition plain_request :: "string \<Rightarrow> request_mode \<Rightarrow> request" where
  "plain_request action mode =
     \<lparr>r_url = ''https://shop.example'' @ url_of action, r_mode = mode,
      r_destination = [], r_headers = [], r_cache = ''default''\<rparr>"

definition ajax_request :: "string \<Rightarrow> request" where
  "ajax_request query =
     \<lparr>r_url = ''https://shop.example'' @ url_of ''Cart-MiniCartShow'' @ query, r_mode = CorsMode,
      r_destination = [],
      r_headers = [(X_SF_CC_SITEID, ''RefArch''), (X_SF_CC_REQUESTLOCALE, ''en_US'')],
      r_cache = ''default''\<rparr>"

definition after_minicart :: world where
  "after_minicart =
     fresh_world\<lparr>caches := [(''Build-1762041600000_dw4ae791b3'',
                    [(''https://shop.example/RefArch.en_US.MiniCartShow'', stored ''<div>2 items</div>'')])],
                  fetch_log := [''https://shop.example/on/demandware.store/Sites-RefArch-Site/en_US/Cart-MiniCartShow?a=1'']\<rparr>"

text \<open>A state in which the offline page is in the cache of the current generation, and an
  answer without content.\<close>

definition offline_world :: world where
  "offline_world =
     fresh_world\<lparr>caches := [(''Build-1762041600000_dw4ae791b3'',
                    [(''https://shop.example/on/demandware.static/Sites-RefArch-Site/-/default/dw4ae791b3/offline.html'',
                      stored ''<h1>offline</h1>'')])]\<rparr>"

definition no_content :: response where
  "no_content = \<lparr>status = 204, rtype = Basic, headers = [], body = []\<rparr>"

definition redirect :: "response \<Rightarrow> bool" where
  "redirect r = (status r \<in> set [301, 302] \<or> rtype r = OpaqueRedirect)"

text \<open>A worker with one part whose placeholder, \<open>$swnavigation-sidebar$\<close>, is 22 bytes
  long, and a network that serves the part.\<close>

definition sidebar_part :: part_config where
  "sidebar_part = part_with ''$swnavigation-sidebar$'' ''sidebar''"

definition sidebar_env :: env where
  "sidebar_env =
     \<lparr>serverPreparedData = (getInitConfig True)\<lparr>cachedParts := [sidebar_part], cachedUrls := []\<rparr>,
      now = 1762041600000, location_origin = ''https://shop.example'',
      base_url = ''https://shop.example/'',
      network = (\<lambda>u. if contains u ''part=sidebar'' then Inr (stored ''<aside/>'')
                      else Inl FetchFailure)\<rparr>"

text \<open>The first n bytes of a placeholder agree with the buffer from position k on.\<close>

definition agree :: "bytes \<Rightarrow> nat \<Rightarrow> bytes \<Rightarrow> nat \<Rightarrow> bool" where
  "agree bs k pb n = (n \<le> length pb \<and> k + n \<le> length bs \<and> take n (drop k bs) = take n pb)"

text \<open>The state of a candidate when the loop of \<open>findMatchingPlaceholder\<close> is entered with
  index \<open>idx\<close>: its fields are those of its configuration, it is not finished, it is
  longer than \<open>idx\<close>, and if it still matches, its first \<open>idx\<close> bytes agree with the buffer.\<close>

definition cand_ok :: "encoded_config list \<Rightarrow> bytes \<Rightarrow> nat \<Rightarrow> nat \<Rightarrow> candidate \<Rightarrow> bool" where
  "cand_ok configs bs k idx c =
     (c_bytes c = placeholderBytes (config c) \<and> c_length c = length (placeholderBytes (config c))
      \<and> config c \<in> set configs \<and> \<not> finished c \<and> idx < c_length c
      \<and> (matched c \<longrightarrow> agree bs k (c_bytes c) idx))"

text \<open>No placeholder of the configuration is the beginning of another one's (nor equal to
  it).\<close>

definition prefix_free :: "encoded_config list \<Rightarrow> bool" where
  "prefix_free configs =
     list_all (\<lambda>c. list_all (\<lambda>c'. starts_with (placeholderBytes c') (placeholderBytes c) \<longrightarrow> c' = c) configs) configs"

text \<open>Every placeholder has at least two bytes after the prefix.\<close>

definition long_enough :: "encoded_config list \<Rightarrow> bool" where
  "long_enough configs = list_all (\<lambda>c. 2 \<le> length (placeholderBytes c)) configs"

text \<open>A token of the configuration stands at a position of the buffer.\<close>

definition token_at :: "bytes \<Rightarrow> nat \<Rightarrow> bytes \<Rightarrow> encoded_config \<Rightarrow> bool" where
  "token_at bs pos p c =
     (pos + length p + length (placeholderBytes c) \<le> length bs
      \<and> take (length p + length (placeholderBytes c)) (drop pos bs) = p @ placeholderBytes c)"

text \<open>The tokens the scanner is made for: the first byte of the prefix occurs nowhere else in
  the prefix and in a placeholder at most as its last byte (as in \<open>$swheader$\<close>), every
  placeholder has two bytes or more after the prefix, and none is the beginning of another.\<close>

definition well_formed :: "bytes \<Rightarrow> encoded_config list \<Rightarrow> bool" where
  "well_formed p configs =
     (p \<noteq> [] \<and> hd p \<notin> set (tl p) \<and> long_enough configs \<and> prefix_free configs
      \<and> list_all (\<lambda>c. hd p \<notin> set (butlast (placeholderBytes c))) configs)"

text \<open>No token of the configuration stands at a position before \<open>n\<close> of the buffer.\<close>

definition none_before :: "bytes \<Rightarrow> encoded_config list \<Rightarrow> bytes \<Rightarrow> nat \<Rightarrow> bool" where
  "none_before p configs bs n =
     list_all (\<lambda>c. list_all (\<lambda>pos. \<not> token_at bs pos p c) [0..<n]) configs"

text \<open>No token of the configuration occurs in the bytes.\<close>

definition token_free :: "bytes \<Rightarrow> encoded_config list \<Rightarrow> bytes \<Rightarrow> bool" where
  "token_free p configs bs = none_before p configs bs (length bs)"

text \<open>The bytes end with a beginning of the prefix that is not empty: \<open>$\<close>, \<open>$s\<close> or
  \<open>$sw\<close>.\<close>

definition ends_in_prefix_part :: "bytes \<Rightarrow> bytes \<Rightarrow> bool" where
  "ends_in_prefix_part p x = list_ex (\<lambda>j. ends_with x (take j p)) [1..<Suc (length p)]"

text \<open>The bytes of an optional array; \<open>null\<close> stands for none.\<close>

definition the_bytes :: "bytes option \<Rightarrow> bytes" where
  "the_bytes v = (case v of Some b \<Rightarrow> b | None \<Rightarrow> [])"

text \<open>Scanning a buffer at once: the configuration matched, the bytes passed through before
  the token and the bytes after it.\<close>

definition scan_whole ::
  "bytes \<Rightarrow> encoded_config list \<Rightarrow> bytes \<Rightarrow> bool \<Rightarrow> encoded_config option \<times> bytes \<times> bytes" where
  "scan_whole p configs bs fin =
     (let r = extractPlaceholderChunk bs p configs fin
      in (map_option m_config (found r), the_bytes (before r), the_bytes (after r)))"

text \<open>Scanning a buffer cut in two, as \<open>pull\<close> and \<open>nextFromQueue\<close> do it: the first chunk is
  scanned as not final; when it holds no match, its carry-over is put in front of the second
  chunk and the result is scanned. The bytes passed through are those the first scan
  released followed by those before the match of the second.\<close>

definition scan_in_two_chunks ::
  "bytes \<Rightarrow> encoded_config list \<Rightarrow> bytes \<Rightarrow> bytes \<Rightarrow> bool \<Rightarrow> encoded_config option \<times> bytes \<times> bytes" where
  "scan_in_two_chunks p configs c1 c2 fin =
     (let r1 = extractPlaceholderChunk c1 p configs False
      in case found r1 of
           Some m \<Rightarrow> (Some (m_config m), the_bytes (before r1), the_bytes (after r1) @ c2)
         | None \<Rightarrow>
             (let r2 = extractPlaceholderChunk (the_bytes (leftover r1) @ c2) p configs fin
              in (map_option m_config (found r2),
                  the_bytes (before r1) @ the_bytes (before r2),
                  the_bytes (after r2))))"

text \<open>The queue item made of the carry-over, \<open>{ value: leftover, merge: true }\<close>.\<close>

definition carry :: "bytes \<Rightarrow> item" where
  "carry v = \<lparr>item_value = Some v, item_done = False, item_merge = True, item_isBase = False\<rparr>"

text \<open>A queue item that only carries bytes: \<open>{ value: after, merge: false }\<close> and what
  \<open>fetchOrCachePart\<close> resolves to.\<close>

definition plain :: "bytes \<Rightarrow> item" where
  "plain v = \<lparr>item_value = Some v, item_done = False, item_merge = False, item_isBase = False\<rparr>"

text \<open>What pull appends to the queue after a base item: the next read.\<close>

definition pushed :: "item \<Rightarrow> bytes list \<Rightarrow> (error + item) list \<times> bytes list" where
  "pushed it rd = (if item_isBase it then ([Inr (fst (readChunk rd))], snd (readChunk rd)) else ([], rd))"

text \<open>A queue item that is the pending read, with the reader behind it.\<close>

definition read_ok :: "item \<Rightarrow> bytes list \<Rightarrow> bool" where
  "read_ok r rd = (item_isBase r \<and> \<not> item_merge r \<and> (item_done r \<longleftrightarrow> item_value r = None)
                   \<and> (item_done r \<longrightarrow> rd = []))"

text \<open>A network that serves the header part only, and the state after the header was fetched
  and stored.\<close>

definition header_network :: "string \<Rightarrow> error + response" where
  "header_network u =
     (if contains u ''Page-IncludeHeaderMenu'' then Inr (stored ''<nav/>'') else Inl FetchFailure)"

definition after_header :: world where
  "after_header =
     fresh_world\<lparr>caches := [(''Build-1762041600000_dw4ae791b3'',
                    [(''https://shop.example/RefArch.en_US.header'', stored ''<nav/>'')])],
                  fetch_log := [''/on/demandware.store/Sites-RefArch-Site/en_US/Page-IncludeHeaderMenu?sw=true'']\<rparr>"

section \<open>The scanner on well-formed tokens\<close>

lemma for_candidates_eq:
  "for_candidates bs i idx cands f0 =
     (filter matched (map (update_candidate bs i idx) cands),
      list_all (\<lambda>c. finished (update_candidate bs i idx c)) cands,
      f0 \<or> list_ex (\<lambda>c. finished (update_candidate bs i idx c) \<and> matched (update_candidate bs i idx c)) cands)"
  unfolding for_candidates_def
  by (induction cands) (auto simp: Let_def)

lemma agree_Suc:
  "agree bs k pb (Suc n) \<longleftrightarrow> agree bs k pb n \<and> n < length pb \<and> js_index pb n = js_index bs (k + n)"
proof -
  have *: "take (Suc n) (drop k bs) = take (Suc n) pb \<longleftrightarrow>
        take n (drop k bs) = take n pb \<and> bs ! (k + n) = pb ! n"
    if "n < length pb" "k + n < length bs"
    using that by (simp add: take_Suc_conv_app_nth)
  show ?thesis
    using * by (auto simp: agree_def js_index_def)
qed

lemma agree_0: "agree bs k pb 0 \<longleftrightarrow> k \<le> length bs"
  by (simp add: agree_def)

lemma update_candidate_ok:
  assumes "cand_ok configs bs k idx c"
  shows "c_bytes (update_candidate bs (k + idx) idx c) = c_bytes c"
    and "c_length (update_candidate bs (k + idx) idx c) = c_length c"
    and "config (update_candidate bs (k + idx) idx c) = config c"
    and "finished (update_candidate bs (k + idx) idx c) \<longleftrightarrow> Suc idx = c_length c"
    and "matched (update_candidate bs (k + idx) idx c) \<longleftrightarrow> matched c \<and> agree bs k (c_bytes c) (Suc idx)"
  using assms by (auto simp: cand_ok_def update_candidate_def Let_def agree_Suc)

lemma prefix_freeD:
  "prefix_free configs \<Longrightarrow> c \<in> set configs \<Longrightarrow> c' \<in> set configs
   \<Longrightarrow> take (length (placeholderBytes c)) (placeholderBytes c') = placeholderBytes c \<Longrightarrow> c' = c"
  by (auto simp: prefix_free_def list_all_iff starts_with_def)

lemma agree_same_prefix:
  assumes "agree bs k pb n" "agree bs k pb' n" 
  shows "take n pb' = take n pb"
  using assms by (auto simp: agree_def)

text \<open>When the loop ends with \<open>found\<close> set, \<open>candidates[0]\<close> exists.\<close>

lemma find_loop_found_nonempty:
  "find_loop bs i idx cands af False = (i', cands', True) \<Longrightarrow> cands' \<noteq> []"
proof (induction "length bs - i" arbitrary: i idx cands af rule: less_induct)
  case less
  let ?upd = "update_candidate bs i idx"
  let ?cands' = "filter matched (map ?upd cands)"
  let ?af = "list_all (\<lambda>c. finished (?upd c)) cands"
  let ?fnd = "list_ex (\<lambda>c. finished (?upd c) \<and> matched (?upd c)) cands"
  show ?case
  proof (cases "i < length bs \<and> cands \<noteq> [] \<and> \<not> af")
    case False
    then have "find_loop bs i idx cands af False = (i, cands, False)"
      by (subst find_loop.simps) auto
    with less.prems show ?thesis by simp
  next
    case True
    then have step: "find_loop bs i idx cands af False
             = find_loop bs (i + 1) (idx + 1) ?cands' ?af ?fnd"
      by (subst find_loop.simps) (simp add: for_candidates_eq)
    show ?thesis
    proof (cases ?fnd)
      case True
      then have "find_loop bs (i + 1) (idx + 1) ?cands' ?af ?fnd = (i + 1, ?cands', True)"
        by (subst find_loop.simps) simp
      with step less.prems have eq: "cands' = ?cands'" by simp
      from True obtain c where "c \<in> set cands" "matched (?upd c)"
        by (auto simp: list_ex_iff)
      then have "?upd c \<in> set ?cands'" by auto
      then have "0 < length ?cands'" by (rule length_pos_if_in_set)
      then have ne: "?cands' \<noteq> []" by (metis length_greater_0_conv)
      from ne show ?thesis by (subst eq)
    next
      case False
      have "length bs - (i + 1) < length bs - i" using True by arith
      from less.hyps [OF this] step less.prems False show ?thesis by simp
    qed
  qed
qed

text \<open>Soundness of the candidate loop.\<close>

lemma find_loop_sound:
  assumes pf: "prefix_free configs"
  shows "\<forall>c\<in>set cands. cand_ok configs bs k idx c
    \<Longrightarrow> find_loop bs (k + idx) idx cands False False = (i', cands', True)
    \<Longrightarrow> \<exists>c0 rest. cands' = c0 # rest \<and> config c0 \<in> set configs
          \<and> c_length c0 = length (placeholderBytes (config c0))
          \<and> agree bs k (placeholderBytes (config c0)) (c_length c0) \<and> i' = k + c_length c0"
proof (induction "length bs - (k + idx)" arbitrary: idx cands rule: less_induct)
  case less
  let ?upd = "update_candidate bs (k + idx) idx"
  let ?cands' = "filter matched (map ?upd cands)"
  let ?af = "list_all (\<lambda>c. finished (?upd c)) cands"
  let ?fnd = "list_ex (\<lambda>c. finished (?upd c) \<and> matched (?upd c)) cands"
  have inv: "\<forall>c\<in>set cands. cand_ok configs bs k idx c" by fact
  show ?case
  proof (cases "k + idx < length bs \<and> cands \<noteq> []")
    case False
    then have "find_loop bs (k + idx) idx cands False False = (k + idx, cands, False)"
      by (subst find_loop.simps) auto
    with less.prems(2) show ?thesis by simp
  next
    case True
    then have step: "find_loop bs (k + idx) idx cands False False
             = find_loop bs (k + Suc idx) (Suc idx) ?cands' ?af ?fnd"
      by (subst find_loop.simps) (simp add: for_candidates_eq)
    show ?thesis
    proof (cases ?fnd)
      case True
      then obtain c where c: "c \<in> set cands" "finished (?upd c)" "matched (?upd c)"
        by (auto simp: list_ex_iff)
      have okc: "cand_ok configs bs k idx c" using inv c(1) by blast
      have Lc: "Suc idx = c_length c" using update_candidate_ok(4) [OF okc] c(2) by simp
      have agc: "agree bs k (c_bytes c) (Suc idx)" using update_candidate_ok(5) [OF okc] c(3) by simp
      have res: "find_loop bs (k + Suc idx) (Suc idx) ?cands' ?af ?fnd = (k + Suc idx, ?cands', True)"
        using True by (subst find_loop.simps) simp
      with step less.prems(2) have i': "i' = k + Suc idx" and c': "cands' = ?cands'" by simp_all
      have "?upd c \<in> set ?cands'" using c by auto
      then obtain c0 rest where cons: "?cands' = c0 # rest" by (cases ?cands') auto
      then have "c0 \<in> set ?cands'" by simp
      then obtain d where d: "d \<in> set cands" "c0 = ?upd d" "matched (?upd d)" by auto
      have okd: "cand_ok configs bs k idx d" using inv d(1) by blast
      have agd: "agree bs k (c_bytes d) (Suc idx)" using update_candidate_ok(5) [OF okd] d(3) by simp
      have "take (Suc idx) (c_bytes d) = take (Suc idx) (c_bytes c)"
        using agree_same_prefix [OF agc agd] .
      moreover have "take (Suc idx) (c_bytes c) = c_bytes c"
        using okc Lc by (simp add: cand_ok_def)
      ultimately have "take (length (placeholderBytes (config c))) (placeholderBytes (config d))
                        = placeholderBytes (config c)"
        using okc okd Lc by (simp add: cand_ok_def)
      then have same: "config d = config c"
        using prefix_freeD [OF pf, of "config c" "config d"] okc okd by (simp add: cand_ok_def)
      have "config c0 = config c" "c_length c0 = c_length d"
        using d(2) update_candidate_ok(2,3) [OF okd] same by simp_all
      moreover have "c_length d = c_length c" using okc okd same by (simp add: cand_ok_def)
      ultimately show ?thesis
        using cons c' i' okc Lc agc by (auto simp: cand_ok_def)
    next
      case False
      show ?thesis
      proof (cases ?af)
        case True
        then have "find_loop bs (k + Suc idx) (Suc idx) ?cands' ?af ?fnd = (k + Suc idx, ?cands', False)"
          using False by (subst find_loop.simps) simp
        with step less.prems(2) show ?thesis by simp
      next
        case af: False
        have inv': "\<forall>c\<in>set ?cands'. cand_ok configs bs k (Suc idx) c"
        proof
          fix c' assume "c' \<in> set ?cands'"
          then obtain d where d: "d \<in> set cands" "c' = ?upd d" "matched (?upd d)" by auto
          have okd: "cand_ok configs bs k idx d" using inv d(1) by blast
          have nf: "\<not> finished (?upd d)" using False d by (auto simp: list_ex_iff)
          then have "Suc idx \<noteq> c_length d" using update_candidate_ok(4) [OF okd] by simp
          moreover have "idx < c_length d" using okd by (simp add: cand_ok_def)
          ultimately have lt: "Suc idx < c_length d" by simp
          show "cand_ok configs bs k (Suc idx) c'"
            using okd nf lt d(2,3) update_candidate_ok [OF okd]
            by (simp add: cand_ok_def)
        qed
        have "length bs - (k + Suc idx) < length bs - (k + idx)" using True by arith
        from less.hyps [OF this inv'] step less.prems(2) af False
        show ?thesis by simp
      qed
    qed
  qed
qed

text \<open>Completeness of the candidate loop.\<close>

lemma find_loop_complete:
  assumes t: "t \<in> set configs" and full: "agree bs k (placeholderBytes t) (length (placeholderBytes t))"
  shows "\<forall>c\<in>set cands. cand_ok configs bs k idx c
    \<Longrightarrow> \<exists>c\<in>set cands. config c = t \<and> matched c
    \<Longrightarrow> \<exists>i' cands'. find_loop bs (k + idx) idx cands False False = (i', cands', True)"
proof (induction "length bs - (k + idx)" arbitrary: idx cands rule: less_induct)
  case less
  let ?upd = "update_candidate bs (k + idx) idx"
  let ?cands' = "filter matched (map ?upd cands)"
  let ?af = "list_all (\<lambda>c. finished (?upd c)) cands"
  let ?fnd = "list_ex (\<lambda>c. finished (?upd c) \<and> matched (?upd c)) cands"
  have inv: "\<forall>c\<in>set cands. cand_ok configs bs k idx c" by fact
  from less.prems(2) obtain c where c: "c \<in> set cands" "config c = t" "matched c" by blast
  have okc: "cand_ok configs bs k idx c" using inv c(1) by blast
  have idx: "idx < length (placeholderBytes t)" using okc c(2) by (simp add: cand_ok_def)
  have cb: "c_bytes c = placeholderBytes t" "c_length c = length (placeholderBytes t)"
    using okc c(2) by (simp_all add: cand_ok_def)
  have ag: "agree bs k (placeholderBytes t) (Suc idx)"
  proof -
    have "take (length (placeholderBytes t)) (drop k bs) = placeholderBytes t"
      using full by (simp add: agree_def)
    then have "take (Suc idx) (take (length (placeholderBytes t)) (drop k bs))
                 = take (Suc idx) (placeholderBytes t)" by simp
    then have "take (Suc idx) (drop k bs) = take (Suc idx) (placeholderBytes t)"
      using idx by (simp add: min_def)
    then show ?thesis using full idx by (simp add: agree_def)
  qed
  have mc: "matched (?upd c)" using update_candidate_ok(5) [OF okc] c(3) ag cb by simp
  have lt: "k + idx < length bs" using full idx by (simp add: agree_def)
  have ne: "cands \<noteq> []" using c(1) by auto
  have step: "find_loop bs (k + idx) idx cands False False
             = find_loop bs (k + Suc idx) (Suc idx) ?cands' ?af ?fnd"
    using lt ne by (subst find_loop.simps) (simp add: for_candidates_eq)
  show ?case
  proof (cases ?fnd)
    case True
    then have "find_loop bs (k + Suc idx) (Suc idx) ?cands' ?af ?fnd = (k + Suc idx, ?cands', True)"
      by (subst find_loop.simps) simp
    with step show ?thesis by simp
  next
    case False
    then have nf: "\<not> finished (?upd c)" using c(1) mc by (auto simp: list_ex_iff)
    then have af: "\<not> ?af" using c(1) by (auto simp: list_all_iff)
    have inv': "\<forall>c\<in>set ?cands'. cand_ok configs bs k (Suc idx) c"
    proof
      fix c' assume "c' \<in> set ?cands'"
      then obtain d where d: "d \<in> set cands" "c' = ?upd d" "matched (?upd d)" by auto
      have okd: "cand_ok configs bs k idx d" using inv d(1) by blast
      have nfd: "\<not> finished (?upd d)" using False d by (auto simp: list_ex_iff)
      then have "Suc idx \<noteq> c_length d" using update_candidate_ok(4) [OF okd] by simp
      moreover have "idx < c_length d" using okd by (simp add: cand_ok_def)
      ultimately have lt: "Suc idx < c_length d" by simp
      show "cand_ok configs bs k (Suc idx) c'"
        using okd nfd lt d(2,3) update_candidate_ok [OF okd]
        by (simp add: cand_ok_def)
    qed
    have pres: "\<exists>c\<in>set ?cands'. config c = t \<and> matched c"
      using c(1,2) mc update_candidate_ok(3) [OF okc] by (intro bexI [of _ "?upd c"]) auto
    have "length bs - (k + Suc idx) < length bs - (k + idx)" using lt by arith
    from less.hyps [OF this inv' pres] step af False show ?thesis by simp
  qed
qed

lemma initial_candidates_ok:
  assumes "long_enough configs"
  shows "\<forall>c\<in>set (initial_candidates bs k configs). cand_ok configs bs k 1 c"
proof
  fix c assume "c \<in> set (initial_candidates bs k configs)"
  then obtain cfg where cfg: "cfg \<in> set configs"
    and c: "c = \<lparr>config = cfg, c_bytes = placeholderBytes cfg,
                 c_length = length (placeholderBytes cfg),
                 matched = (js_index (placeholderBytes cfg) 0 = js_index bs k),
                 finished = (length (placeholderBytes cfg) = 1)\<rparr>"
    by (auto simp: initial_candidates_def)
  have L: "2 \<le> length (placeholderBytes cfg)"
    using assms cfg by (auto simp: long_enough_def list_all_iff)
  have "agree bs k (placeholderBytes cfg) (Suc 0)" if "js_index (placeholderBytes cfg) 0 = js_index bs k"
    using that L by (auto simp: agree_Suc agree_0 js_index_def split: if_splits)
  with L cfg show "cand_ok configs bs k 1 c"
    by (auto simp: cand_ok_def c)
qed

text \<open>What a match reported by findMatchingPlaceholder means.\<close>

lemma findMatchingPlaceholder_sound:
  assumes le: "long_enough configs" and pf: "prefix_free configs"
    and r: "findMatchingPlaceholder bs k p configs = Some m"
  shows "m_config m \<in> set configs
       \<and> m_length m = length (placeholderBytes (m_config m))
       \<and> agree bs k (placeholderBytes (m_config m)) (m_length m)
       \<and> m_end m = int (k + m_length m) - 1
       \<and> m_start m = int k - int (length p)"
proof -
  obtain i cands f where fl: "find_loop bs (k + 1) 1 (initial_candidates bs k configs) False False = (i, cands, f)"
    by (cases "find_loop bs (k + 1) 1 (initial_candidates bs k configs) False False") auto
  with r have f: "f" by (auto simp: findMatchingPlaceholder_def split: if_splits)
  from find_loop_sound [OF pf initial_candidates_ok [OF le], of bs k i cands] fl f
  obtain c0 rest where c0: "cands = c0 # rest" "config c0 \<in> set configs"
    "c_length c0 = length (placeholderBytes (config c0))"
    "agree bs k (placeholderBytes (config c0)) (c_length c0)" "i = k + c_length c0"
    by auto
  have "m = \<lparr>m_config = config c0, m_length = c_length c0,
             m_start = (int i - 1) - int (c_length c0) - int (length p) + 1,
             m_end = int i - 1\<rparr>"
    using r fl f c0(1) by (simp add: findMatchingPlaceholder_def)
  with c0 show ?thesis by simp
qed

lemma agree_full_take:
  "agree bs k pb (length pb) \<Longrightarrow> n \<le> length pb \<Longrightarrow> take n (drop k bs) = take n pb"
proof -
  assume a: "agree bs k pb (length pb)" and n: "n \<le> length pb"
  then have "take (length pb) (drop k bs) = pb" by (simp add: agree_def)
  then have "take n (take (length pb) (drop k bs)) = take n pb" by simp
  with n show ?thesis by (simp add: min_def)
qed

lemma agree_unique:
  assumes pf: "prefix_free configs" and "c \<in> set configs" "c' \<in> set configs"
    and "agree bs k (placeholderBytes c) (length (placeholderBytes c))"
    and "agree bs k (placeholderBytes c') (length (placeholderBytes c'))"
  shows "c' = c"
proof (cases "length (placeholderBytes c) \<le> length (placeholderBytes c')")
  case True
  have "take (length (placeholderBytes c)) (placeholderBytes c')
          = take (length (placeholderBytes c)) (drop k bs)"
    using agree_full_take [OF assms(5) True] by simp
  also have "\<dots> = placeholderBytes c"
    using agree_full_take [OF assms(4), of "length (placeholderBytes c)"] by simp
  finally show ?thesis using prefix_freeD [OF pf assms(2,3)] by simp
next
  case False
  then have le: "length (placeholderBytes c') \<le> length (placeholderBytes c)" by simp
  have "take (length (placeholderBytes c')) (placeholderBytes c)
          = take (length (placeholderBytes c')) (drop k bs)"
    using agree_full_take [OF assms(4) le] by simp
  also have "\<dots> = placeholderBytes c'"
    using agree_full_take [OF assms(5), of "length (placeholderBytes c')"] by simp
  finally show ?thesis using prefix_freeD [OF pf assms(3,2)] by simp
qed

lemma findMatchingPlaceholder_complete:
  assumes le: "long_enough configs" and pf: "prefix_free configs"
    and t: "t \<in> set configs"
    and full: "agree bs k (placeholderBytes t) (length (placeholderBytes t))"
  shows "findMatchingPlaceholder bs k p configs
           = Some \<lparr>m_config = t, m_length = length (placeholderBytes t),
                   m_start = int k - int (length p),
                   m_end = int (k + length (placeholderBytes t)) - 1\<rparr>"
proof -
  have L: "2 \<le> length (placeholderBytes t)" using le t by (auto simp: long_enough_def list_all_iff)
  have "agree bs k (placeholderBytes t) (Suc 0)"
    using full L by (simp add: agree_def agree_full_take)
  then have "js_index (placeholderBytes t) 0 = js_index bs k"
    by (simp add: agree_Suc)
  then have pres: "\<exists>c\<in>set (initial_candidates bs k configs). config c = t \<and> matched c"
    using t by (auto simp: initial_candidates_def intro!: bexI [of _ t])
  from find_loop_complete [OF t full initial_candidates_ok [OF le] pres]
  obtain i cands where fl: "find_loop bs (k + 1) 1 (initial_candidates bs k configs) False False = (i, cands, True)"
    by auto
  from find_loop_sound [OF pf initial_candidates_ok [OF le], of bs k i cands] fl
  obtain c0 rest where c0: "cands = c0 # rest" "config c0 \<in> set configs"
    "c_length c0 = length (placeholderBytes (config c0))"
    "agree bs k (placeholderBytes (config c0)) (c_length c0)" "i = k + c_length c0"
    by auto
  have "config c0 = t" using agree_unique [OF pf t c0(2) full] c0(3,4) by simp
  with c0 fl show ?thesis by (simp add: findMatchingPlaceholder_def)
qed

lemma prefix_loop_stop:
  assumes "\<not> (js_index bs ptr = js_index p pi \<and> pi < length p \<and> ptr < length bs)"
  shows "prefix_loop bs p pi ptr = (pi, ptr)"
  by (subst prefix_loop.simps) (rule if_not_P [OF assms])

lemma prefix_loop_go:
  assumes "js_index bs ptr = js_index p pi \<and> pi < length p \<and> ptr < length bs"
  shows "prefix_loop bs p pi ptr = prefix_loop bs p (pi + 1) (ptr + 1)"
  by (subst prefix_loop.simps) (rule if_P [OF assms])

lemma prefix_loop_full:
  "pi \<le> length p \<Longrightarrow> ptr + (length p - pi) \<le> length bs
   \<Longrightarrow> take (length p - pi) (drop ptr bs) = drop pi p
   \<Longrightarrow> prefix_loop bs p pi ptr = (length p, ptr + (length p - pi))"
proof (induction "length p - pi" arbitrary: pi ptr)
  case 0
  then have "\<not> (js_index bs ptr = js_index p pi \<and> pi < length p \<and> ptr < length bs)" by simp
  then have "prefix_loop bs p pi ptr = (pi, ptr)" by (rule prefix_loop_stop)
  with 0 show ?case by simp
next
  case (Suc n)
  then have lt: "pi < length p" "ptr < length bs" by simp_all
  have n: "length p - (pi + 1) = n" using Suc.hyps(2) by arith
  have d1: "drop ptr bs = bs ! ptr # drop (Suc ptr) bs" using lt by (simp add: Cons_nth_drop_Suc)
  have d2: "drop pi p = p ! pi # drop (Suc pi) p" using lt by (simp add: Cons_nth_drop_Suc)
  have "take (Suc n) (drop ptr bs) = drop pi p" using Suc.prems(3) Suc.hyps(2) by simp
  then have eq: "bs ! ptr = p ! pi" "take n (drop (Suc ptr) bs) = drop (Suc pi) p"
    unfolding d1 d2 by simp_all
  have hd: "js_index bs ptr = js_index p pi \<and> pi < length p \<and> ptr < length bs"
    using lt eq(1) by (simp add: js_index_def)
  have "prefix_loop bs p (pi + 1) (ptr + 1) = (length p, (ptr + 1) + (length p - (pi + 1)))"
  proof (rule Suc.hyps(1))
    show "n = length p - (pi + 1)" using n by simp
    show "pi + 1 \<le> length p" using lt by simp
    show "ptr + 1 + (length p - (pi + 1)) \<le> length bs" using Suc.prems(2) lt by arith
    show "take (length p - (pi + 1)) (drop (ptr + 1) bs) = drop (pi + 1) p"
      using eq(2) n by simp
  qed
  moreover have "ptr + 1 + (length p - (pi + 1)) = ptr + (length p - pi)" using lt by arith
  ultimately show ?case by (simp add: prefix_loop_go [OF hd])
qed

lemma prefix_loop_bound:
  "prefix_loop bs p pi ptr = (pi', ptr') \<Longrightarrow> ptr \<le> length bs \<Longrightarrow> ptr' \<le> length bs"
proof (induction bs p pi ptr rule: prefix_loop.induct)
  case (1 bs p pi ptr)
  show ?case
  proof (cases "js_index bs ptr = js_index p pi \<and> pi < length p \<and> ptr < length bs")
    case False
    then have "prefix_loop bs p pi ptr = (pi, ptr)" by (rule prefix_loop_stop)
    with "1.prems" show ?thesis by simp
  next
    case True
    then have "prefix_loop bs p pi ptr = prefix_loop bs p (pi + 1) (ptr + 1)"
      by (rule prefix_loop_go)
    with "1.prems" have r: "prefix_loop bs p (pi + 1) (ptr + 1) = (pi', ptr')" by simp
    have "ptr + 1 \<le> length bs" using True by simp
    from "1.IH" [OF True r this] show ?thesis .
  qed
qed

lemma prefix_loop_spec:
  "prefix_loop bs p pi ptr = (pi', ptr') \<Longrightarrow> pi \<le> length p
   \<Longrightarrow> pi \<le> pi' \<and> pi' \<le> length p \<and> ptr' = ptr + (pi' - pi)
       \<and> take (pi' - pi) (drop ptr bs) = take (pi' - pi) (drop pi p)"
proof (induction bs p pi ptr rule: prefix_loop.induct)
  case (1 bs p pi ptr)
  show ?case
  proof (cases "js_index bs ptr = js_index p pi \<and> pi < length p \<and> ptr < length bs")
    case False
    then have "prefix_loop bs p pi ptr = (pi, ptr)" by (rule prefix_loop_stop)
    with "1.prems" show ?thesis by simp
  next
    case True
    then have go: "prefix_loop bs p pi ptr = prefix_loop bs p (pi + 1) (ptr + 1)"
      by (rule prefix_loop_go)
    with "1.prems" have r: "prefix_loop bs p (pi + 1) (ptr + 1) = (pi', ptr')" by simp
    have "pi + 1 \<le> length p" using True by simp
    from "1.IH" [OF True r this]
    have ih: "pi + 1 \<le> pi'" "pi' \<le> length p" "ptr' = ptr + 1 + (pi' - (pi + 1))"
      "take (pi' - (pi + 1)) (drop (ptr + 1) bs) = take (pi' - (pi + 1)) (drop (pi + 1) p)"
      by simp_all
    have hd: "bs ! ptr = p ! pi" using True by (auto simp: js_index_def)
    have d1: "drop ptr bs = bs ! ptr # drop (ptr + 1) bs" using True by (simp add: Cons_nth_drop_Suc)
    have d2: "drop pi p = p ! pi # drop (pi + 1) p" using True by (simp add: Cons_nth_drop_Suc)
    obtain n where n: "pi' - pi = Suc n" "pi' - (pi + 1) = n" using ih(1) by (cases "pi' - pi") auto
    have "take (pi' - pi) (drop ptr bs) = take (pi' - pi) (drop pi p)"
      using ih(4) hd n by (subst d1, subst d2) simp
    moreover have "ptr' = ptr + (pi' - pi)" using ih(3) n by simp
    ultimately show ?thesis using ih by simp
  qed
qed

lemma scan_loop_found: "scan_loop bs p configs ptr (Some m) = Some m"
  by (subst scan_loop.simps) simp

lemma scan_loop_end: "length bs \<le> ptr \<Longrightarrow> scan_loop bs p configs ptr f = f"
  by (subst scan_loop.simps) simp

lemma scan_loop_step:
  "ptr < length bs \<Longrightarrow> prefix_loop bs p 0 ptr = (pi, ptr')
   \<Longrightarrow> scan_loop bs p configs ptr None
       = scan_loop bs p configs (ptr' + 1)
           (if pi = length p \<and> ptr' < length bs
            then findMatchingPlaceholder bs ptr' p configs else None)"
  by (subst scan_loop.simps) simp

lemma token_at_split:
  "token_at bs pos p c \<longleftrightarrow>
     pos + length p \<le> length bs \<and> take (length p) (drop pos bs) = p
     \<and> agree bs (pos + length p) (placeholderBytes c) (length (placeholderBytes c))"
proof -
  let ?L = "length (placeholderBytes c)"
  have "take (length p + ?L) (drop pos bs)
          = take (length p) (drop pos bs) @ take ?L (drop (length p) (drop pos bs))"
    by (rule take_add)
  also have "drop (length p) (drop pos bs) = drop (pos + length p) bs"
    by (simp add: add.commute)
  finally have split: "take (length p + ?L) (drop pos bs)
          = take (length p) (drop pos bs) @ take ?L (drop (pos + length p) bs)" .
  show ?thesis
  proof
    assume a: "token_at bs pos p c"
    then have le: "pos + length p + ?L \<le> length bs"
      and eq: "take (length p) (drop pos bs) @ take ?L (drop (pos + length p) bs) = p @ placeholderBytes c"
      by (simp_all add: token_at_def split)
    have "length (take (length p) (drop pos bs)) = length p" using le by simp
    with eq have "take (length p) (drop pos bs) = p" "take ?L (drop (pos + length p) bs) = placeholderBytes c"
      by (simp_all add: append_eq_append_conv)
    with le show "pos + length p \<le> length bs \<and> take (length p) (drop pos bs) = p
     \<and> agree bs (pos + length p) (placeholderBytes c) ?L"
      by (simp add: agree_def)
  next
    assume "pos + length p \<le> length bs \<and> take (length p) (drop pos bs) = p
     \<and> agree bs (pos + length p) (placeholderBytes c) ?L"
    then show "token_at bs pos p c"
      by (simp add: token_at_def split agree_def)
  qed
qed

lemma scan_loop_sound:
  assumes le: "long_enough configs" and pf: "prefix_free configs" and p: "p \<noteq> []"
  shows "scan_loop bs p configs ptr None = Some m
    \<Longrightarrow> \<exists>pos\<ge>ptr. m_config m \<in> set configs \<and> token_at bs pos p (m_config m)
          \<and> m_length m = length (placeholderBytes (m_config m))
          \<and> m_start m = int pos
          \<and> m_end m = int (pos + length p + m_length m) - 1"
proof (induction "length bs - ptr" arbitrary: ptr rule: less_induct)
  case less
  have lt: "ptr < length bs"
  proof (rule ccontr)
    assume "\<not> ptr < length bs"
    then have "scan_loop bs p configs ptr None = None" by (simp add: scan_loop_end)
    with less.prems show False by simp
  qed
  obtain pi ptr' where pl: "prefix_loop bs p 0 ptr = (pi, ptr')" by (cases "prefix_loop bs p 0 ptr")
  from prefix_loop_spec [OF pl] have spec: "pi \<le> length p" "ptr' = ptr + pi"
    "take pi (drop ptr bs) = take pi p" by simp_all
  let ?f = "if pi = length p \<and> ptr' < length bs
            then findMatchingPlaceholder bs ptr' p configs else None"
  have step: "scan_loop bs p configs ptr None = scan_loop bs p configs (ptr' + 1) ?f"
    by (rule scan_loop_step [OF lt pl])
  show ?case
  proof (cases ?f)
    case None
    have "length bs - (ptr' + 1) < length bs - ptr" using lt spec(2) by arith
    from less.hyps [OF this] step None less.prems
    obtain pos where "pos \<ge> ptr' + 1" "m_config m \<in> set configs \<and> token_at bs pos p (m_config m)
          \<and> m_length m = length (placeholderBytes (m_config m))
          \<and> m_start m = int pos
          \<and> m_end m = int (pos + length p + m_length m) - 1" by auto
    moreover have "ptr \<le> pos" using calculation(1) spec(2) by simp
    ultimately show ?thesis by blast
  next
    case (Some m')
    then have c: "pi = length p" "ptr' < length bs" "findMatchingPlaceholder bs ptr' p configs = Some m'"
      by (auto split: if_splits)
    have "m = m'" using step Some less.prems by (simp add: scan_loop_found)
    from findMatchingPlaceholder_sound [OF le pf c(3)] this
    have s: "m_config m \<in> set configs" "m_length m = length (placeholderBytes (m_config m))"
      "agree bs ptr' (placeholderBytes (m_config m)) (m_length m)"
      "m_end m = int (ptr' + m_length m) - 1" "m_start m = int ptr' - int (length p)"
      by auto
    have "token_at bs ptr p (m_config m)"
      using s(2,3) spec c(1,2) by (simp add: token_at_split)
    moreover have "m_start m = int ptr" using s(5) spec(2) c(1) by simp
    moreover have "m_end m = int (ptr + length p + m_length m) - 1" using s(4) spec(2) c(1) by simp
    ultimately show ?thesis using s(1,2) by blast
  qed
qed

lemma none_beforeD:
  "none_before p configs bs n \<Longrightarrow> c \<in> set configs \<Longrightarrow> pos < n \<Longrightarrow> \<not> token_at bs pos p c"
  by (auto simp: none_before_def list_all_iff)

lemma none_beforeI:
  "(\<And>c pos. c \<in> set configs \<Longrightarrow> pos < n \<Longrightarrow> \<not> token_at bs pos p c) \<Longrightarrow> none_before p configs bs n"
  by (auto simp: none_before_def list_all_iff)

lemma token_at_bound: "token_at bs pos p c \<Longrightarrow> p \<noteq> [] \<Longrightarrow> pos < length bs"
  by (cases p) (auto simp: token_at_def)

lemma token_free_iff:
  assumes "p \<noteq> []"
  shows "token_free p configs bs \<longleftrightarrow> (\<forall>c\<in>set configs. \<forall>pos. \<not> token_at bs pos p c)"
proof
  assume "token_free p configs bs"
  then show "\<forall>c\<in>set configs. \<forall>pos. \<not> token_at bs pos p c"
    using token_at_bound [OF _ assms] none_beforeD unfolding token_free_def by blast
next
  assume "\<forall>c\<in>set configs. \<forall>pos. \<not> token_at bs pos p c"
  then show "token_free p configs bs" unfolding token_free_def by (intro none_beforeI) blast
qed

lemma token_at_take: "token_at (take n bs) pos p c \<Longrightarrow> token_at bs pos p c"
proof -
  let ?k = "length p + length (placeholderBytes c)"
  assume a: "token_at (take n bs) pos p c"
  then have le: "pos + ?k \<le> length (take n bs)" and eq: "take ?k (drop pos (take n bs)) = p @ placeholderBytes c"
    by (simp_all add: token_at_def add.assoc)
  have len: "pos + ?k \<le> n" "pos + ?k \<le> length bs" using le by simp_all
  have "drop pos (take n bs) = take (n - pos) (drop pos bs)" by (rule drop_take)
  then have "take ?k (drop pos (take n bs)) = take ?k (take (n - pos) (drop pos bs))" by simp
  also have "\<dots> = take ?k (drop pos bs)" using len(1) by (simp only: take_take) (simp add: min_def)
  finally show ?thesis using eq len(2) by (simp add: token_at_def add.assoc)
qed

lemma token_at_drop:
  assumes "token_at (drop m bs) pos p c" and "p \<noteq> []"
  shows "token_at bs (m + pos) p c"
proof -
  from assms have lp: "0 < length p" by simp
  from assms(1) have a: "pos + length p + length (placeholderBytes c) \<le> length bs - m"
    and b: "take (length p + length (placeholderBytes c)) (drop pos (drop m bs)) = p @ placeholderBytes c"
    by (simp_all add: token_at_def)
  from a lp have "m + pos + length p + length (placeholderBytes c) \<le> length bs" by arith
  moreover have "drop pos (drop m bs) = drop (m + pos) bs" by (simp add: add.commute)
  ultimately show ?thesis using b by (simp add: token_at_def)
qed

lemma token_at_append_left: "token_at bs pos p c \<Longrightarrow> token_at (xs @ bs) (length xs + pos) p c"
  by (simp add: token_at_def)

lemma token_free_take: "p \<noteq> [] \<Longrightarrow> token_free p configs bs \<Longrightarrow> token_free p configs (take n bs)"
  by (auto simp: token_free_iff dest: token_at_take)

lemma token_free_drop: "p \<noteq> [] \<Longrightarrow> token_free p configs bs \<Longrightarrow> token_free p configs (drop m bs)"
  by (auto simp: token_free_iff dest: token_at_drop)

lemma token_free_prefix: "p \<noteq> [] \<Longrightarrow> token_free p configs (v @ rest) \<Longrightarrow> token_free p configs v"
  using token_free_take [of p configs "v @ rest" "length v"] by simp

lemma scan_token_free:
  assumes le: "long_enough configs" and pf: "prefix_free configs" and p: "p \<noteq> []"
    and free: "token_free p configs bs"
  shows "scan_loop bs p configs 0 None = None"
proof (rule ccontr)
  assume "scan_loop bs p configs 0 None \<noteq> None"
  then obtain m where "scan_loop bs p configs 0 None = Some m" by auto
  from scan_loop_sound [OF le pf p this]
  obtain pos where "m_config m \<in> set configs" "token_at bs pos p (m_config m)" by auto
  with free p show False by (auto simp: token_free_iff)
qed

lemma ends_in_prefix_partI:
  assumes "1 \<le> j" "j \<le> length p" "j \<le> length x" "drop (length x - j) x = take j p"
  shows "ends_in_prefix_part p x"
proof -
  have lj: "length (take j p) = j" using assms(2) by simp
  have "ends_with x (take j p)" unfolding ends_with_def lj using assms(3,4) by simp
  moreover have "j \<in> set [1..<Suc (length p)]" using assms(1,2) by auto
  ultimately show ?thesis unfolding ends_in_prefix_part_def list_ex_iff by (rule bexI)
qed

lemma ends_in_prefix_part_drop: "ends_in_prefix_part p (drop m x) \<Longrightarrow> ends_in_prefix_part p x"
proof -
  assume "ends_in_prefix_part p (drop m x)"
  then obtain j where j: "1 \<le> j" "j \<le> length p" "ends_with (drop m x) (take j p)"
    by (auto simp: ends_in_prefix_part_def list_ex_iff)
  have lj: "length (take j p) = j" using j(2) by simp
  from j(3) have l: "j \<le> length x - m" and d: "drop (length x - m - j) (drop m x) = take j p"
    unfolding ends_with_def lj by simp_all
  have "length x - m - j + m = length x - j" using l j(1) by arith
  then have "drop (length x - j) x = take j p" using d by (simp add: add.commute)
  then show ?thesis using j l by (intro ends_in_prefix_partI [of j]) auto
qed

text \<open>The scan reaches the start of a token when no token stands before it and the bytes before
  it do not end in a beginning of the prefix.\<close>

lemma scan_loop_upto:
  assumes le: "long_enough configs" and pf: "prefix_free configs" and p: "p \<noteq> []"
    and tl: "hd p \<notin> set (tl p)"
    and n: "n < length bs" "bs ! n = hd p"
    and nb: "none_before p configs bs n"
    and ne: "\<not> ends_in_prefix_part p (take n bs)"
  shows "ptr \<le> n \<Longrightarrow> scan_loop bs p configs ptr None = scan_loop bs p configs n None"
proof (induction "n - ptr" arbitrary: ptr rule: less_induct)
  case less
  show ?case
  proof (cases "ptr = n")
    case True
    then show ?thesis by simp
  next
    case False
    with less.prems have lt: "ptr < n" by simp
    then have ltb: "ptr < length bs" using n(1) by simp
    obtain pi ptr' where pl: "prefix_loop bs p 0 ptr = (pi, ptr')" by (cases "prefix_loop bs p 0 ptr")
    from prefix_loop_spec [OF pl] have spec: "pi \<le> length p" "ptr' = ptr + pi"
      "take pi (drop ptr bs) = take pi p" by simp_all
    have bound: "ptr + pi < n"
    proof (rule ccontr)
      assume "\<not> ptr + pi < n"
      then have ge: "n \<le> ptr + pi" by simp
      define j where "j = n - ptr"
      have j: "1 \<le> j" "j \<le> pi" "ptr + j = n" using lt ge by (simp_all add: j_def)
      show False
      proof (cases "j < pi")
        case True
        have "take pi (drop ptr bs) ! j = take pi p ! j" using spec(3) by simp
        then have "bs ! (ptr + j) = p ! j" using True spec(1) n(1) j by simp
        then have "p ! j = hd p" using j(3) n(2) by simp
        moreover have "p ! j \<in> set (tl p)"
          using j(1) True spec(1) p by (cases p) (auto simp: nth_Cons split: nat.splits)
        ultimately show False using tl by simp
      next
        case False
        with j have jp: "j = pi" by simp
        have "drop (length (take n bs) - j) (take n bs) = drop ptr (take n bs)"
          using j n(1) by (simp add: min_def) (metis add_diff_cancel_right')
        also have "\<dots> = take j (drop ptr bs)" using j by (simp add: drop_take) (metis add_diff_cancel_left')
        also have "\<dots> = take j p" using spec(3) jp by simp
        finally have "drop (length (take n bs) - j) (take n bs) = take j p" .
        then have "ends_in_prefix_part p (take n bs)"
          using j jp spec(1) n(1) by (intro ends_in_prefix_partI [of j]) auto
        with ne show False by simp
      qed
    qed
    have nf: "findMatchingPlaceholder bs ptr' p configs = None" if "pi = length p"
    proof (rule ccontr)
      assume "findMatchingPlaceholder bs ptr' p configs \<noteq> None"
      then obtain m where m: "findMatchingPlaceholder bs ptr' p configs = Some m" by auto
      from findMatchingPlaceholder_sound [OF le pf m]
      have s: "m_config m \<in> set configs" "m_length m = length (placeholderBytes (m_config m))"
        "agree bs ptr' (placeholderBytes (m_config m)) (m_length m)" by auto
      have "ptr + length p \<le> length bs" using bound n(1) that by simp
      then have "token_at bs ptr p (m_config m)"
        using s(2,3) spec that by (simp add: token_at_split)
      with nb s(1) lt show False using none_beforeD by blast
    qed
    have "scan_loop bs p configs ptr None = scan_loop bs p configs (ptr' + 1) None"
      using scan_loop_step [OF ltb pl, of configs] nf by auto
    also have "\<dots> = scan_loop bs p configs n None"
      using bound spec(2) lt by (intro less.hyps) auto
    finally show ?thesis .
  qed
qed

lemma scan_loop_hit:
  assumes le: "long_enough configs" and pf: "prefix_free configs" and p: "p \<noteq> []"
    and t: "t \<in> set configs" and at: "token_at bs ptr p t"
  shows "scan_loop bs p configs ptr None
           = Some \<lparr>m_config = t, m_length = length (placeholderBytes t),
                   m_start = int ptr,
                   m_end = int (ptr + length p + length (placeholderBytes t)) - 1\<rparr>"
proof -
  have L: "2 \<le> length (placeholderBytes t)" using le t by (auto simp: long_enough_def list_all_iff)
  from at have a: "ptr + length p \<le> length bs" "take (length p) (drop ptr bs) = p"
    "agree bs (ptr + length p) (placeholderBytes t) (length (placeholderBytes t))"
    by (simp_all add: token_at_split)
  have lt: "ptr < length bs" using a(1) p by (cases p) auto
  have pl: "prefix_loop bs p 0 ptr = (length p, ptr + length p)"
    using prefix_loop_full [of 0 p ptr bs] a by simp
  have lt': "ptr + length p < length bs" using a(3) L by (simp add: agree_def)
  have "scan_loop bs p configs ptr None
          = scan_loop bs p configs (ptr + length p + 1) (findMatchingPlaceholder bs (ptr + length p) p configs)"
    using scan_loop_step [OF lt pl, of configs] lt' by simp
  also have "findMatchingPlaceholder bs (ptr + length p) p configs
      = Some \<lparr>m_config = t, m_length = length (placeholderBytes t),
              m_start = int (ptr + length p) - int (length p),
              m_end = int (ptr + length p + length (placeholderBytes t)) - 1\<rparr>"
    by (rule findMatchingPlaceholder_complete [OF le pf t a(3)])
  finally show ?thesis by (simp add: scan_loop_found)
qed


lemma scan_first_token:
  assumes le: "long_enough configs" and pf: "prefix_free configs" and p: "p \<noteq> []"
    and tl: "hd p \<notin> set (tl p)" and t: "t \<in> set configs"
    and nb: "none_before p configs (pre @ p @ placeholderBytes t @ post) (length pre)"
    and ne: "\<not> ends_in_prefix_part p pre"
  shows "scan_loop (pre @ p @ placeholderBytes t @ post) p configs 0 None
           = Some \<lparr>m_config = t, m_length = length (placeholderBytes t),
                   m_start = int (length pre),
                   m_end = int (length pre + length p + length (placeholderBytes t)) - 1\<rparr>"
proof -
  let ?bs = "pre @ p @ placeholderBytes t @ post"
  have n: "length pre < length ?bs" "?bs ! length pre = hd p"
    using p by (cases p; simp)+
  have ne': "\<not> ends_in_prefix_part p (take (length pre) ?bs)" using ne by simp
  have "scan_loop ?bs p configs 0 None = scan_loop ?bs p configs (length pre) None"
    by (rule scan_loop_upto [OF le pf p tl n nb ne']) simp
  moreover have "token_at ?bs (length pre) p t" by (simp add: token_at_def)
  ultimately show ?thesis using scan_loop_hit [OF le pf p t] by simp
qed

lemma none_before_prefix:
  assumes "none_before p configs (bs @ rest) n"
  shows "none_before p configs bs n"
proof (rule none_beforeI)
  fix c pos
  assume c: "c \<in> set configs" "pos < n"
  show "\<not> token_at bs pos p c"
  proof
    assume "token_at bs pos p c"
    then have "token_at (take (length bs) (bs @ rest)) pos p c" by simp
    then have "token_at (bs @ rest) pos p c" by (rule token_at_take)
    with none_beforeD [OF assms c] show False by simp
  qed
qed

lemma none_before_drop:
  assumes nb: "none_before p configs (pre @ X) (length pre)" and p: "p \<noteq> []" and m: "m \<le> length pre"
  shows "none_before p configs (drop m pre @ X) (length (drop m pre))"
proof (rule none_beforeI)
  fix c pos
  assume c: "c \<in> set configs" and pos: "pos < length (drop m pre)"
  show "\<not> token_at (drop m pre @ X) pos p c"
  proof
    assume "token_at (drop m pre @ X) pos p c"
    then have "token_at (drop m (pre @ X)) pos p c" using m by simp
    then have "token_at (pre @ X) (m + pos) p c" using p by (rule token_at_drop)
    moreover have "m + pos < length pre" using pos by simp
    ultimately show False using none_beforeD [OF nb c] by blast
  qed
qed

lemma hd_positions:
  assumes "p \<noteq> []" "hd p \<notin> set (tl p)" "hd p \<notin> set (butlast pb)" "pb \<noteq> []"
    and i: "i < length p + length pb - 1" and eq: "(p @ pb) ! i = hd p"
  shows "i = 0"
proof (rule ccontr)
  let ?mid = "tl p @ butlast pb"
  have D: "p @ pb = hd p # ?mid @ [last pb]" using assms(1,4) by simp
  have mid: "hd p \<notin> set ?mid" using assms(2,3) by simp
  assume "i \<noteq> 0"
  then obtain j where j: "i = Suc j" by (cases i) auto
  have jl: "j < length ?mid" using i j assms(1,4) by (simp add: length_butlast)
  have "(p @ pb) ! i = (?mid @ [last pb]) ! j" unfolding D j by simp
  also have "\<dots> = ?mid ! j" using jl by (simp only: nth_append if_True)
  finally have "(p @ pb) ! i \<in> set ?mid" using jl by (metis nth_mem)
  with eq mid show False by simp
qed

lemma token_at_hd:
  assumes "token_at bs pos p c" "p \<noteq> []"
  shows "pos < length bs \<and> bs ! pos = hd p"
proof -
  from assms have le: "pos + length p + length (placeholderBytes c) \<le> length bs"
    and eq: "take (length p + length (placeholderBytes c)) (drop pos bs) = p @ placeholderBytes c"
    by (simp_all add: token_at_def)
  have lt: "pos < length bs" using le assms(2) by (cases p) auto
  have "hd (take (length p + length (placeholderBytes c)) (drop pos bs)) = bs ! pos"
    using lt assms(2) by (cases p) (simp_all add: hd_drop_conv_nth)
  with eq lt assms(2) show ?thesis by simp
qed

lemma drop_take_append: "drop (length pre) (take n (pre @ X)) = take (n - length pre) X"
proof -
  have "drop (length pre) (take n (pre @ X)) = take (n - length pre) (drop (length pre) (pre @ X))"
    by (rule drop_take)
  then show ?thesis by simp
qed


text \<open>A buffer that ends inside the first token holds no token.\<close>

lemma scan_partial_token:
  assumes wf: "well_formed p configs" and t: "t \<in> set configs"
    and nb: "none_before p configs (pre @ p @ placeholderBytes t @ post) (length pre)"
    and n: "n < length pre + length p + length (placeholderBytes t)"
  shows "scan_loop (take n (pre @ p @ placeholderBytes t @ post)) p configs 0 None = None"
proof (rule ccontr)
  let ?D = "pre @ p @ placeholderBytes t @ post"
  let ?bs = "take n ?D"
  let ?L = "length (placeholderBytes t)"
  from wf have p: "p \<noteq> []" and le: "long_enough configs" and pf: "prefix_free configs"
    and tl: "hd p \<notin> set (tl p)"
    by (simp_all add: well_formed_def)
  have bl: "hd p \<notin> set (butlast (placeholderBytes t))"
    using wf t by (auto simp: well_formed_def list_all_iff)
  have L: "2 \<le> ?L" using le t by (auto simp: long_enough_def list_all_iff)
  assume "scan_loop ?bs p configs 0 None \<noteq> None"
  then obtain m where "scan_loop ?bs p configs 0 None = Some m" by auto
  from scan_loop_sound [OF le pf p this]
  obtain pos where c: "m_config m \<in> set configs" and at: "token_at ?bs pos p (m_config m)" by auto
  let ?c = "m_config m"
  let ?Lc = "length (placeholderBytes ?c)"
  from at have atD: "token_at ?D pos p ?c" by (rule token_at_take)
  have ge: "length pre \<le> pos" using none_beforeD [OF nb c] atD by (meson not_le)
  from token_at_hd [OF at p] have pos: "pos < length ?bs" "?bs ! pos = hd p" by simp_all
  have posn: "pos < n" using pos(1) by simp
  define i where "i = pos - length pre"
  have pi: "pos = length pre + i" using ge by (simp add: i_def)
  have il: "i < length p + ?L - 1" using posn n pi by simp
  have "?bs ! pos = ?D ! pos" using posn by (rule nth_take)
  also have "\<dots> = (p @ placeholderBytes t @ post) ! i" unfolding pi by (rule nth_append_length_plus)
  also have "\<dots> = ((p @ placeholderBytes t) @ post) ! i" by simp
  also have "\<dots> = (p @ placeholderBytes t) ! i"
  proof -
    have "i < length (p @ placeholderBytes t)" using il by simp
    then show ?thesis by (rule nth_append_left)
  qed
  finally have "(p @ placeholderBytes t) ! i = hd p" using pos(2) by simp
  moreover have "placeholderBytes t \<noteq> []" using L by auto
  ultimately have "i = 0" using hd_positions [OF p tl bl _ il] by blast
  then have ps: "pos = length pre" using pi by simp
  from at have le2: "pos + length p + ?Lc \<le> length ?bs"
    and eq: "take (length p + ?Lc) (drop pos ?bs) = p @ placeholderBytes ?c"
    by (simp_all add: token_at_def)
  have lc: "?Lc < ?L" using le2 n ps by simp
  have "drop pos ?bs = take (n - length pre) (p @ placeholderBytes t @ post)"
    unfolding ps by (rule drop_take_append)
  then have e1: "take (length p + ?Lc) (take (n - length pre) (p @ placeholderBytes t @ post))
                   = p @ placeholderBytes ?c"
    using eq by simp
  have le3: "length p + ?Lc \<le> n - length pre" using le2 ps by simp
  have "take (length p + ?Lc) (take (n - length pre) (p @ placeholderBytes t @ post))
          = take (length p + ?Lc) (p @ placeholderBytes t @ post)"
    using le3 by (simp only: take_take min_absorb1)
  with e1 have "take (length p + ?Lc) (p @ placeholderBytes t @ post) = p @ placeholderBytes ?c"
    by simp
  then have "take ?Lc (placeholderBytes t @ post) = placeholderBytes ?c" by simp
  then have "take ?Lc (placeholderBytes t) = placeholderBytes ?c" using lc by simp
  from prefix_freeD [OF pf c t this] lc show False by simp
qed

lemma js_slice_0: "js_slice xs 0 (int n) = take n xs"
  by (simp add: js_slice_def rel_index_def Let_def min_def)

lemma js_slice_from_nat: "js_slice_from xs (int n) = drop n xs"
  by (simp add: js_slice_from_def rel_index_def min_def)

lemma extract_found:
  assumes le: "long_enough configs" and pf: "prefix_free configs" and p: "p \<noteq> []"
    and tl: "hd p \<notin> set (tl p)" and t: "t \<in> set configs"
    and nb: "none_before p configs (pre @ p @ placeholderBytes t @ post) (length pre)"
    and ne: "\<not> ends_in_prefix_part p pre"
  shows "extractPlaceholderChunk (pre @ p @ placeholderBytes t @ post) p configs fin
           = \<lparr>found = Some \<lparr>m_config = t, m_length = length (placeholderBytes t),
                   m_start = int (length pre),
                   m_end = int (length pre + length p + length (placeholderBytes t)) - 1\<rparr>,
              before = Some pre, after = Some post, leftover = None\<rparr>"
proof -
  have "js_slice_from (pre @ p @ placeholderBytes t @ post)
          (int (length pre + length p + length (placeholderBytes t)) - 1 + 1) = post"
    using js_slice_from_nat [of "pre @ p @ placeholderBytes t @ post"
            "length pre + length p + length (placeholderBytes t)"] by simp
  then show ?thesis
    by (simp add: extractPlaceholderChunk_def scan_first_token [OF le pf p tl t nb ne] js_slice_0)
qed

lemma extract_none:
  assumes "scan_loop bs p configs 0 None = None"
  shows "extractPlaceholderChunk bs p configs False
           = \<lparr>found = None,
              before = (if length bs > LAST_BYTES_COUNT then Some (take (length bs - LAST_BYTES_COUNT) bs) else None),
              after = None,
              leftover = Some (drop (length bs - LAST_BYTES_COUNT) bs)\<rparr>"
    and "extractPlaceholderChunk bs p configs True
           = \<lparr>found = None, before = Some bs, after = None, leftover = None\<rparr>"
proof -
  have a: "js_slice bs 0 (int (length bs) - int LAST_BYTES_COUNT) = take (length bs - LAST_BYTES_COUNT) bs"
    if "length bs > LAST_BYTES_COUNT"
    using that js_slice_0 [of bs "length bs - LAST_BYTES_COUNT"] by (simp add: of_nat_diff)
  have b: "js_slice_from bs (int (length bs) - int LAST_BYTES_COUNT) = drop (length bs - LAST_BYTES_COUNT) bs"
    if "length bs > LAST_BYTES_COUNT"
    using that js_slice_from_nat [of bs "length bs - LAST_BYTES_COUNT"] by (simp add: of_nat_diff)
  show "extractPlaceholderChunk bs p configs False
           = \<lparr>found = None,
              before = (if length bs > LAST_BYTES_COUNT then Some (take (length bs - LAST_BYTES_COUNT) bs) else None),
              after = None,
              leftover = Some (drop (length bs - LAST_BYTES_COUNT) bs)\<rparr>"
    using assms a b by (simp add: extractPlaceholderChunk_def)
  show "extractPlaceholderChunk bs p configs True
           = \<lparr>found = None, before = Some bs, after = None, leftover = None\<rparr>"
    using assms by (simp add: extractPlaceholderChunk_def)
qed

section \<open>Carry-over of the scanner\<close>

text \<open>
  C5, as the code has it. On a scan that is not final and finds no match, the carry-over
  is the last \<open>LAST_BYTES_COUNT\<close> (20) bytes of the buffer, or the whole buffer when it
  is shorter, and the bytes in front of it are released: its length is the smaller of 20
  and the length of the buffer, whatever tokens are configured.
\<close>

theorem carry_over_bounded_by_constant:
  assumes "found (extractPlaceholderChunk bs prefixBytes configs False) = None"
  shows "leftover (extractPlaceholderChunk bs prefixBytes configs False)
           = Some (drop (length bs - LAST_BYTES_COUNT) bs)
         \<and> the_bytes (before (extractPlaceholderChunk bs prefixBytes configs False))
           = take (length bs - LAST_BYTES_COUNT) bs
         \<and> length (drop (length bs - LAST_BYTES_COUNT) bs) = min (length bs) 20"
proof -
  have "scan_loop bs prefixBytes configs 0 None = None"
    using assms by (cases "scan_loop bs prefixBytes configs 0 None")
                   (simp_all add: extractPlaceholderChunk_def)
  from extract_none(1) [OF this] show ?thesis
    by (simp add: the_bytes_def LAST_BYTES_COUNT_def)
qed

theorem carry_over_bounded_by_constant_witness:
  "found (extractPlaceholderChunk ''<html><body><h1>Shop</h1>$swhead'' PLACEHOLDER_PREFIX
            [header_config] False) = None
   \<and> leftover (extractPlaceholderChunk ''<html><body><h1>Shop</h1>$swhead'' PLACEHOLDER_PREFIX
                 [header_config] False) = Some ''<h1>Shop</h1>$swhead''
   \<and> the_bytes (before (extractPlaceholderChunk ''<html><body><h1>Shop</h1>$swhead''
                           PLACEHOLDER_PREFIX [header_config] False)) = ''<html><body>''"
proof -
  have h: "found (extractPlaceholderChunk ''<html><body><h1>Shop</h1>$swhead'' PLACEHOLDER_PREFIX
                    [header_config] False) = None"
    by code_simp
  have d: "drop (length ''<html><body><h1>Shop</h1>$swhead'' - LAST_BYTES_COUNT)
             ''<html><body><h1>Shop</h1>$swhead'' = ''<h1>Shop</h1>$swhead''"
    by code_simp
  have t: "take (length ''<html><body><h1>Shop</h1>$swhead'' - LAST_BYTES_COUNT)
             ''<html><body><h1>Shop</h1>$swhead'' = ''<html><body>''"
    by code_simp
  from carry_over_bounded_by_constant [OF h] h show ?thesis unfolding d t by blast
qed

text \<open>
  C5 as stated fails: with the single 10-byte token \<open>$swheader$\<close> configured, a 26-byte
  buffer without a match leaves a carry-over of 20 bytes.
\<close>

theorem carry_over_exceeds_longest_token:
  "found (extractPlaceholderChunk ''<p>no placeholder here</p>'' PLACEHOLDER_PREFIX [header_config] False) = None
   \<and> leftover (extractPlaceholderChunk ''<p>no placeholder here</p>'' PLACEHOLDER_PREFIX [header_config] False)
       = Some ''placeholder here</p>''
   \<and> length ''placeholder here</p>'' = 20
   \<and> longest_token PLACEHOLDER_PREFIX [header_config] = 10"
  by code_simp

section \<open>Span of a match\<close>

text \<open>
  C2 at a token whose part after the prefix is one byte. In \<open><b>$swH</b>\<close> the
  token \<open>$swH\<close> stands at bytes 3 to 6. The scanner reports the span 4 to 7: \<open>before\<close>
  keeps the \<open>$\<close> of the token, \<open>after\<close> loses the \<open><\<close> behind it, and \<open>before\<close>, the
  token and \<open>after\<close> do not make up the buffer.
\<close>

theorem single_byte_suffix_span_is_shifted:
  "extractPlaceholderChunk ''<b>$swH</b>'' PLACEHOLDER_PREFIX [encode_one (part_with ''$swH'' ''h'')] False
     = \<lparr>found = Some \<lparr>m_config = encode_one (part_with ''$swH'' ''h''), m_length = 1,
                        m_start = 4, m_end = 7\<rparr>,
        before = Some ''<b>$'', after = Some ''/b>'', leftover = None\<rparr>
   \<and> placeholderBytes (encode_one (part_with ''$swH'' ''h'')) = ''H''
   \<and> ''<b>$'' @ (PLACEHOLDER_PREFIX @ ''H'') @ ''/b>'' \<noteq> ''<b>$swH</b>''"
  by code_simp

text \<open>
  C4 at two tokens of which one is the beginning of the other, the longer one configured
  first. In \<open><p>$swnavbar</p>\<close> the token \<open>$swnav\<close> is complete first, at byte 8, but the
  candidate reported is the first one still in the list, \<open>$swnavbar\<close>, with the end of
  the short token and a start computed from the long one's length.
\<close>

theorem first_listed_candidate_is_reported:
  "extractPlaceholderChunk ''<p>$swnavbar</p>'' PLACEHOLDER_PREFIX
       [encode_one (part_with ''$swnavbar'' ''navbar''), encode_one (part_with ''$swnav'' ''nav'')] False
     = \<lparr>found = Some \<lparr>m_config = encode_one (part_with ''$swnavbar'' ''navbar''), m_length = 6,
                        m_start = 0, m_end = 8\<rparr>,
        before = Some [], after = Some ''bar</p>'', leftover = None\<rparr>
   \<and> map_option m_config (found (extractPlaceholderChunk ''<p>$swnavbar</p>'' PLACEHOLDER_PREFIX
       [encode_one (part_with ''$swnav'' ''nav''), encode_one (part_with ''$swnavbar'' ''navbar'')] False))
     = Some (encode_one (part_with ''$swnav'' ''nav''))"
  by code_simp

section \<open>Scanning in two chunks\<close>

lemma drop_take_drop: "m \<le> k \<Longrightarrow> drop m (take k D) @ drop k D = drop m D"
proof -
  assume mk: "m \<le> k"
  define d where "d = k - m"
  have k: "k = d + m" using mk by (simp add: d_def)
  have "drop m (take (d + m) D) = take d (drop m D)" by (simp add: drop_take)
  moreover have "drop (d + m) D = drop d (drop m D)" by simp
  moreover have "take d (drop m D) @ drop d (drop m D) = drop m D" by (rule append_take_drop_id)
  ultimately show ?thesis unfolding k by simp
qed

text \<open>
  C3, as the code has it. Let the configured tokens be well formed, let one of them be at
  most \<open>LAST_BYTES_COUNT + 1\<close> = 21 bytes long with its prefix, and let the input be
  \<open>pre\<close>, that token, \<open>post\<close>, where no configured token stands at a position of \<open>pre\<close>
  and \<open>pre\<close> does not end in \<open>$\<close>, \<open>$s\<close> or \<open>$sw\<close> (a beginning of the prefix). Then
  for every split point \<open>k\<close>, scanning the first \<open>k\<close> bytes as not final, putting the
  carry-over in front of the rest and scanning again gives what scanning the whole input
  gives: that token, with \<open>pre\<close> passed through before it and \<open>post\<close> after it.
\<close>

theorem split_token_same_match:
  assumes wf: "well_formed p configs" and t: "t \<in> set configs"
    and nb: "none_before p configs (pre @ p @ placeholderBytes t @ post) (length pre)"
    and ne: "\<not> ends_in_prefix_part p pre"
    and len: "length p + length (placeholderBytes t) \<le> LAST_BYTES_COUNT + 1"
  shows "scan_in_two_chunks p configs (take k (pre @ p @ placeholderBytes t @ post))
             (drop k (pre @ p @ placeholderBytes t @ post)) fin
           = scan_whole p configs (pre @ p @ placeholderBytes t @ post) fin
         \<and> scan_whole p configs (pre @ p @ placeholderBytes t @ post) fin = (Some t, pre, post)"
proof -
  let ?tok = "p @ placeholderBytes t"
  let ?T = "length p + length (placeholderBytes t)"
  let ?D = "pre @ p @ placeholderBytes t @ post"
  from wf have p: "p \<noteq> []" and le: "long_enough configs" and pf: "prefix_free configs"
    and tl: "hd p \<notin> set (tl p)"
    by (simp_all add: well_formed_def)
  have whole: "scan_whole p configs ?D fin = (Some t, pre, post)"
    by (simp add: scan_whole_def extract_found [OF le pf p tl t nb ne] the_bytes_def)
  have "scan_in_two_chunks p configs (take k ?D) (drop k ?D) fin = (Some t, pre, post)"
  proof (cases "length pre + ?T \<le> k")
    case True
    then obtain d where k: "k = length pre + ?T + d" by (metis le_Suc_ex)
    have c1: "take k ?D = pre @ p @ placeholderBytes t @ take d post" unfolding k by simp
    have c2: "drop k ?D = drop d post" unfolding k by simp
    have "none_before p configs ((pre @ p @ placeholderBytes t @ take d post) @ drop d post) (length pre)"
      using nb by simp
    then have nb1: "none_before p configs (pre @ p @ placeholderBytes t @ take d post) (length pre)"
      by (rule none_before_prefix)
    show ?thesis
      unfolding c1 c2
      by (simp add: scan_in_two_chunks_def extract_found [OF le pf p tl t nb1 ne] the_bytes_def)
  next
    case False
    then have kl: "k < length pre + ?T" by simp
    define c1 where "c1 = take k ?D"
    define c2 where "c2 = drop k ?D"
    define m where "m = k - LAST_BYTES_COUNT"
    have lc1: "length c1 = k" using kl by (simp add: c1_def)
    have none: "scan_loop c1 p configs 0 None = None"
      unfolding c1_def using kl by (intro scan_partial_token [OF wf t nb]) simp
    have mk: "m \<le> k" by (simp add: m_def)
    have mp: "m \<le> length pre" using kl len by (simp add: m_def)
    have r1: "extractPlaceholderChunk c1 p configs False
           = \<lparr>found = None,
              before = (if k > LAST_BYTES_COUNT then Some (take m c1) else None),
              after = None,
              leftover = Some (drop m c1)\<rparr>"
      using extract_none(1) [OF none] unfolding lc1 m_def .
    have "take m c1 = take m ?D" unfolding c1_def using mk by (simp only: take_take min_absorb1)
    also have "\<dots> = take m pre" using mp by simp
    finally have tm: "take m c1 = take m pre" .
    have "k \<le> LAST_BYTES_COUNT \<Longrightarrow> take m pre = []" by (simp add: m_def)
    then have b1: "the_bytes (before (extractPlaceholderChunk c1 p configs False)) = take m pre"
      unfolding r1 by (simp add: the_bytes_def tm)
    have "drop m c1 @ c2 = drop m ?D" unfolding c1_def c2_def by (rule drop_take_drop [OF mk])
    also have "\<dots> = drop m pre @ p @ placeholderBytes t @ post" using mp by simp
    finally have merged: "the_bytes (leftover (extractPlaceholderChunk c1 p configs False)) @ c2
                   = drop m pre @ p @ placeholderBytes t @ post"
      unfolding r1 by (simp add: the_bytes_def)
    have nb': "none_before p configs (drop m pre @ p @ placeholderBytes t @ post) (length (drop m pre))"
      by (rule none_before_drop [OF nb p mp])
    have ne': "\<not> ends_in_prefix_part p (drop m pre)"
      using ne ends_in_prefix_part_drop by blast
    have f1: "found (extractPlaceholderChunk c1 p configs False) = None" unfolding r1 by simp
    have "scan_in_two_chunks p configs c1 c2 fin = (Some t, pre, post)"
      unfolding scan_in_two_chunks_def Let_def f1 merged b1
      by (simp add: extract_found [OF le pf p tl t nb' ne'] the_bytes_def)
    then show ?thesis unfolding c1_def c2_def .
  qed
  with whole show ?thesis by simp
qed

theorem split_token_same_match_witness:
  "scan_in_two_chunks PLACEHOLDER_PREFIX [header_config, footer_config]
      ''<p>$5 $sw</p>$sw'' ''header$<b>$</b>'' False
     = (Some header_config, ''<p>$5 $sw</p>'', ''<b>$</b>'')
   \<and> scan_whole PLACEHOLDER_PREFIX [header_config, footer_config] ''<p>$5 $sw</p>$swheader$<b>$</b>'' False
     = (Some header_config, ''<p>$5 $sw</p>'', ''<b>$</b>'')"
proof -
  have wf: "well_formed PLACEHOLDER_PREFIX [header_config, footer_config]" by code_simp
  have t: "header_config \<in> set [header_config, footer_config]" by simp
  have nb: "none_before PLACEHOLDER_PREFIX [header_config, footer_config]
              (''<p>$5 $sw</p>'' @ PLACEHOLDER_PREFIX @ placeholderBytes header_config @ ''<b>$</b>'')
              (length ''<p>$5 $sw</p>'')" by code_simp
  have ne: "\<not> ends_in_prefix_part PLACEHOLDER_PREFIX ''<p>$5 $sw</p>''" by code_simp
  have len: "length PLACEHOLDER_PREFIX + length (placeholderBytes header_config) \<le> LAST_BYTES_COUNT + 1"
    by code_simp
  have c1: "take 16 (''<p>$5 $sw</p>'' @ PLACEHOLDER_PREFIX @ placeholderBytes header_config @ ''<b>$</b>'')
              = ''<p>$5 $sw</p>$sw''"
    by code_simp
  have c2: "drop 16 (''<p>$5 $sw</p>'' @ PLACEHOLDER_PREFIX @ placeholderBytes header_config @ ''<b>$</b>'')
              = ''header$<b>$</b>''"
    by code_simp
  have d: "''<p>$5 $sw</p>'' @ PLACEHOLDER_PREFIX @ placeholderBytes header_config @ ''<b>$</b>''
             = ''<p>$5 $sw</p>$swheader$<b>$</b>''"
    by code_simp
  from split_token_same_match [OF wf t nb ne len, of 16 False]
  show ?thesis unfolding c1 c2 d by simp
qed

text \<open>
  C3 as stated fails. The token \<open>$swnavigation-sidebar$\<close> has 22 bytes. Cut before its last
  byte, the first chunk has 26 bytes and its carry-over of 20 starts behind the \<open>$\<close> of the
  token: the second scan finds nothing, while the scan of the whole input finds the token.
\<close>

theorem long_token_split_differs:
  "scan_whole PLACEHOLDER_PREFIX [encode_one sidebar_part] ''<div>$swnavigation-sidebar$</div>'' True
     = (Some (encode_one sidebar_part), ''<div>'', ''</div>'')
   \<and> scan_in_two_chunks PLACEHOLDER_PREFIX [encode_one sidebar_part]
       ''<div>$swnavigation-sidebar'' ''$</div>'' True
     = (None, ''<div>$swnavigation-sidebar$</div>'', [])
   \<and> ''<div>$swnavigation-sidebar'' @ ''$</div>'' = ''<div>$swnavigation-sidebar$</div>''"
  by code_simp

section \<open>Kill switch\<close>

text \<open>
  With \<open>swEnabled\<close> false the \<open>install\<close> listener unregisters the worker and leaves no
  cache, provided that no cache bears the name of the current generation (its name holds
  the time at which this script was evaluated). It navigates the windows that this worker
  controls and no others: when it controls none, as during its installation, no window is
  navigated.
\<close>

lemma clearOldCaches_all:
  assumes "CACHE_ID e \<notin> fst ` set cs"
  shows "clearOldCaches e cs = []"
proof -
  have f: "fold (\<lambda>n cs'. filter (\<lambda>(name, c). name \<noteq> n) cs') ns cs
             = filter (\<lambda>(name, c). name \<notin> set ns) cs" for ns :: "string list" and cs :: cache_storage
    by (induction ns arbitrary: cs) (auto simp: case_prod_unfold intro: filter_cong)
  define old where "old = filter (\<lambda>name. name \<noteq> CACHE_ID e) (map fst cs)"
  have ne: "n \<noteq> CACHE_ID e" if "(n, b) \<in> set cs" for n b
    using that assms by (metis fst_conv image_eqI)
  have old: "set old = fst ` set cs" using ne by (force simp: old_def)
  have "clearOldCaches e cs = filter (\<lambda>(name, c). name \<notin> set old) cs"
    unfolding clearOldCaches_def Let_def old_def by (rule f)
  also have "\<dots> = []" unfolding old by (force simp: filter_empty_conv)
  finally show ?thesis .
qed

lemma kill_switch_at_install:
  assumes "\<not> swEnabled (serverPreparedData e)" and "CACHE_ID e \<notin> fst ` set (caches w)"
  shows "on_install e w
           = Inr (w\<lparr>caches := [], registered := False,
                    navigated := navigated w @ map cl_url (clients_matchAll w)\<rparr>)"
    and "\<forall>c\<in>set (clients w). cl_controller c \<noteq> Some ThisWorker
         \<Longrightarrow> on_install e w = Inr (w\<lparr>caches := [], registered := False\<rparr>)"
proof -
  show a: "on_install e w
           = Inr (w\<lparr>caches := [], registered := False,
                    navigated := navigated w @ map cl_url (clients_matchAll w)\<rparr>)"
    using assms by (simp add: on_install_def clearOldCaches_all)
  assume "\<forall>c\<in>set (clients w). cl_controller c \<noteq> Some ThisWorker"
  then have "clients_matchAll w = []" by (auto simp: clients_matchAll_def filter_empty_conv)
  with a show "on_install e w = Inr (w\<lparr>caches := [], registered := False\<rparr>)" by simp
qed

text \<open>
  C8 at the installation of a worker with \<open>swEnabled\<close> false, while a tab of the shop is
  open. The tab is controlled by the worker that was active before; a worker that is being
  installed controls no window yet. The listener removes the cache and the registration,
  but \<open>matchAll()\<close> hands it no window, and the open tab is not reloaded.
\<close>

theorem kill_switch_reloads_no_open_tab:
  "on_install (shop_env False (\<lambda>u. Inl FetchFailure))
      \<lparr>caches = [(''Build-1761955200000_dw4ae791b3'',
                   [(''https://shop.example/RefArch.en_US.header'', stored ''<nav/>'')])],
       fetch_log = [], registered = True, skipped_waiting = False,
       clients = [\<lparr>cl_url = ''https://shop.example/home'', cl_controller = Some OtherWorker\<rparr>],
       navigated = []\<rparr>
     = Inr \<lparr>caches = [], fetch_log = [], registered = False, skipped_waiting = False,
            clients = [\<lparr>cl_url = ''https://shop.example/home'', cl_controller = Some OtherWorker\<rparr>],
            navigated = []\<rparr>"
  by code_simp

section \<open>Cache invalidation\<close>

lemma map_of_caches_store:
  "map_of (caches_store cs name c) n =
     (if n = name then (if map_of cs name = None then None else Some c) else map_of cs n)"
  by (induction cs) (auto simp: caches_store_def)

lemma fold_cache_delete:
  "fold (\<lambda>k c. cache_delete c k) ks c = filter (\<lambda>(k, r). k \<notin> set ks) c"
  by (induction ks arbitrary: c) (auto simp: cache_delete_def case_prod_unfold intro: filter_cong)

lemma active_cache_clean:
  "active_cache e (cleanTriggeredCache e w u)
     = filter (\<lambda>(k, r). \<not> to_delete (triggered_suffixes e u) k) (active_cache e w)"
proof -
  let ?S = "triggered_suffixes e u"
  obtain cs c where oc: "caches_open (caches w) (CACHE_ID e) = (cs, c)"
    by (cases "caches_open (caches w) (CACHE_ID e)")
  have m: "map_of cs (CACHE_ID e) = Some c"
    using oc by (auto simp: caches_open_def map_add_def split: option.splits)
  let ?c' = "fold (\<lambda>k c. cache_delete c k) (filter (to_delete ?S) (cache_keys c)) c"
  have w': "cleanTriggeredCache e w u = w\<lparr>caches := caches_store cs (CACHE_ID e) ?c'\<rparr>"
    by (simp add: cleanTriggeredCache_def oc Let_def)
  have "active_cache e (cleanTriggeredCache e w u) = ?c'"
    by (simp add: w' active_cache_def caches_open_def map_of_caches_store m)
  also have "\<dots> = filter (\<lambda>(k, r). k \<notin> set (filter (to_delete ?S) (cache_keys c))) c"
    by (rule fold_cache_delete)
  also have "\<dots> = filter (\<lambda>(k, r). \<not> to_delete ?S k) c"
    by (rule filter_cong) (force simp: cache_keys_def)+
  finally show ?thesis using oc by (simp add: active_cache_def)
qed

lemma contains_append_right: "contains (xs @ ys) ys"
  by (induction xs) (auto simp: starts_with_def, cases ys, auto simp: starts_with_def)

lemma contains_suffix: "contains ys p \<Longrightarrow> contains (xs @ ys) p"
  by (induction xs) (auto simp: starts_with_def)

lemma key_url_contains: "contains k p \<Longrightarrow> contains (key_url e k) p"
  by (auto simp: key_url_def contains_suffix)

lemma map_of_filter_keys:
  "map_of (filter (\<lambda>(k, r). P k) c) k = (if P k then map_of c k else None)"
  by (induction c) auto

text \<open>
  C6, as the code has it. The check works with the suffix list of the first trigger that
  occurs in the shortened request URL (\<open>triggered_suffixes\<close>) and deletes from the current
  generation's cache exactly the entries whose URL contains \<open>.suffix\<close> for one of these
  suffixes, as a substring. So every key \<open>site.locale.suffix\<close> with such a suffix is gone
  for every site and locale, and an entry whose URL contains none of the \<open>.suffix\<close>
  strings is unchanged.
\<close>

theorem invalidation_deletes_by_substring:
  "active_cache e (cleanTriggeredCache e w u)
     = filter (\<lambda>(k, r). \<not> to_delete (triggered_suffixes e u) k) (active_cache e w)
   \<and> (s \<in> set (triggered_suffixes e u) \<longrightarrow>
        cache_match (active_cache e (cleanTriggeredCache e w u))
          (key_url e (siteId @ ''.'' @ locale @ ''.'' @ s)) = None)
   \<and> (\<not> to_delete (triggered_suffixes e u) k \<longrightarrow>
        cache_match (active_cache e (cleanTriggeredCache e w u)) k
          = cache_match (active_cache e w) k)"
proof -
  let ?S = "triggered_suffixes e u"
  have a: "active_cache e (cleanTriggeredCache e w u)
     = filter (\<lambda>(k, r). \<not> to_delete ?S k) (active_cache e w)"
    by (rule active_cache_clean)
  have b: "cache_match (active_cache e (cleanTriggeredCache e w u))
          (key_url e (siteId @ ''.'' @ locale @ ''.'' @ s)) = None" if s: "s \<in> set ?S"
  proof -
    have "contains (siteId @ ''.'' @ locale @ ''.'' @ s) (''.'' @ s)"
      using contains_append_right [of "siteId @ ''.'' @ locale" "''.'' @ s"] by simp
    then have "contains (key_url e (siteId @ ''.'' @ locale @ ''.'' @ s)) (''.'' @ s)"
      by (rule key_url_contains)
    with s have "to_delete ?S (key_url e (siteId @ ''.'' @ locale @ ''.'' @ s))"
      by (auto simp: to_delete_def list_ex_iff)
    then show ?thesis by (simp add: a cache_match_def map_of_filter_keys)
  qed
  have c: "cache_match (active_cache e (cleanTriggeredCache e w u)) k
             = cache_match (active_cache e w) k" if "\<not> to_delete ?S k"
    using that by (simp add: a cache_match_def map_of_filter_keys)
  from a b c show ?thesis by blast
qed

theorem invalidation_deletes_by_substring_witness:
  "triggered_suffixes (shop_env True shop_network) login_url = [''header'', ''footer'', ''MiniCartShow'']
   \<and> cache_match (active_cache (shop_env True shop_network)
                    (cleanTriggeredCache (shop_env True shop_network) stocked_world login_url))
        (key_url (shop_env True shop_network) (''RefArch'' @ ''.'' @ ''fr_FR'' @ ''.'' @ ''header'')) = None
   \<and> cache_match (active_cache (shop_env True shop_network)
                    (cleanTriggeredCache (shop_env True shop_network) stocked_world login_url))
        ''https://shop.example/RefArch.en_US.WishlistShow'' = Some (stored ''<ul/>'')"
proof -
  let ?e = "shop_env True shop_network"
  have S: "triggered_suffixes ?e login_url = [''header'', ''footer'', ''MiniCartShow'']"
    by code_simp
  have h: "''header'' \<in> set (triggered_suffixes ?e login_url)" by (simp add: S)
  have n: "\<not> to_delete (triggered_suffixes ?e login_url)
               ''https://shop.example/RefArch.en_US.WishlistShow''"
    by code_simp
  have m: "cache_match (active_cache ?e stocked_world)
             ''https://shop.example/RefArch.en_US.WishlistShow'' = Some (stored ''<ul/>'')"
    by code_simp
  note T = invalidation_deletes_by_substring
         [of ?e stocked_world login_url "''header''" "''RefArch''" "''fr_FR''"
             "''https://shop.example/RefArch.en_US.WishlistShow''"]
  from T h have b: "cache_match (active_cache ?e (cleanTriggeredCache ?e stocked_world login_url))
        (key_url ?e (''RefArch'' @ ''.'' @ ''fr_FR'' @ ''.'' @ ''header'')) = None"
    by blast
  from T n have "cache_match (active_cache ?e (cleanTriggeredCache ?e stocked_world login_url))
        ''https://shop.example/RefArch.en_US.WishlistShow''
      = cache_match (active_cache ?e stocked_world) ''https://shop.example/RefArch.en_US.WishlistShow''"
    by blast
  with m have c: "cache_match (active_cache ?e (cleanTriggeredCache ?e stocked_world login_url))
        ''https://shop.example/RefArch.en_US.WishlistShow'' = Some (stored ''<ul/>'')"
    by simp
  from S b c show ?thesis by (intro conjI)
qed

text \<open>
  C6 as stated fails. With a second part whose suffix is \<open>headerPromo\<close> and which no
  trigger names, a login clears the suffix \<open>header\<close> only; the entry
  \<open>RefArch.en_US.headerPromo\<close> carries another suffix and is deleted all the same, because
  its URL contains \<open>.header\<close>.
\<close>

theorem other_suffix_deleted:
  "triggered_suffixes promo_env login_url = [''header'']
   \<and> cache_match (active_cache promo_env promo_world)
        (key_url promo_env ''RefArch.en_US.headerPromo'') = Some (stored ''<aside/>'')
   \<and> cache_match (active_cache promo_env (cleanTriggeredCache promo_env promo_world login_url))
        (key_url promo_env ''RefArch.en_US.headerPromo'') = None"
  by code_simp

section \<open>Dispatch\<close>

text \<open>
  C9 at a product added to the cart by XMLHttpRequest, whose mode is \<open>cors\<close>.
  \<open>Cart-AddProduct\<close> is a trigger of the cached mini cart; the URL of the request is
  same-origin and the request is not a keyed AJAX request. The listener tests the mode of
  the request where the branch before it tests the origin of the URL: it takes no branch,
  the invalidation check does not run and the cached mini cart stays. The same request
  with mode \<open>same-origin\<close> runs the check, which deletes the entry.
\<close>

theorem cors_request_skips_invalidation:
  "isSameOrigin (shop_env True shop_network) (r_url (plain_request ''Cart-AddProduct'' CorsMode))
   \<and> getAjaxCacheConfig (shop_env True shop_network) (plain_request ''Cart-AddProduct'' CorsMode) = None
   \<and> triggered_suffixes (shop_env True shop_network) (r_url (plain_request ''Cart-AddProduct'' CorsMode))
       = [''MiniCartShow'']
   \<and> cache_keys (active_cache (shop_env True shop_network) after_minicart)
       = [''https://shop.example/RefArch.en_US.MiniCartShow'']
   \<and> on_fetch (shop_env True shop_network) after_minicart (plain_request ''Cart-AddProduct'' CorsMode)
       = (None, after_minicart)
   \<and> cache_keys (active_cache (shop_env True shop_network)
        (snd (on_fetch (shop_env True shop_network) after_minicart
                (plain_request ''Cart-AddProduct'' SameOriginMode)))) = []"
  by code_simp

section \<open>Keyed AJAX cache\<close>

lemma caches_open_idem: "map_of cs n = Some c \<Longrightarrow> caches_open cs n = (cs, c)"
  by (simp add: caches_open_def)

lemma cache_delete_absent: "cache_match c k = None \<Longrightarrow> cache_delete c k = c"
  by (induction c) (auto simp: cache_match_def cache_delete_def split: if_splits)

lemma cache_match_put: "cache_match c k = None \<Longrightarrow> cache_match (c @ [(k, r)]) k = Some r"
  by (simp add: cache_match_def map_add_def)

text \<open>
  C10. Let two same-origin requests carry the same site and locale headers and let
  \<open>getAjaxCacheConfig\<close> map both to the same configuration, whatever else their URLs hold,
  and let the first be answered with a response. When that response is ok, it is in the
  cache of the current generation afterwards, under the key \<open>site.locale.suffix\<close>. When
  it is in the cache under that key, the second request is answered with it, and the
  state, the log of fetches included, does not change. When nothing was cached under the
  key before, the response is what the network gave for the URL of the first request,
  fetched once.
\<close>

theorem ajax_key_ignores_url:
  assumes cfg1: "getAjaxCacheConfig e r1 = Some cfg"
    and cfg2: "getAjaxCacheConfig e r2 = Some cfg"
    and site1: "headers_get (r_headers r1) X_SF_CC_SITEID = Some siteId"
    and site2: "headers_get (r_headers r2) X_SF_CC_SITEID = Some siteId"
    and loc1: "headers_get (r_headers r1) X_SF_CC_REQUESTLOCALE = Some locale"
    and loc2: "headers_get (r_headers r2) X_SF_CC_REQUESTLOCALE = Some locale"
    and so1: "isSameOrigin e (r_url r1)" and so2: "isSameOrigin e (r_url r2)"
    and first: "on_fetch e w r1 = (Some (AjaxResponse (Inr resp)), w1)"
  shows "(ok resp \<longrightarrow>
            cache_match (active_cache e w1)
              (key_url e (siteId @ ''.'' @ locale @ ''.'' @ cu_cacheSuffix cfg)) = Some resp)
         \<and> (cache_match (active_cache e w1)
               (key_url e (siteId @ ''.'' @ locale @ ''.'' @ cu_cacheSuffix cfg)) = Some resp \<longrightarrow>
              on_fetch e w1 r2 = (Some (AjaxResponse (Inr resp)), w1))
         \<and> (cache_match (active_cache e w)
               (key_url e (siteId @ ''.'' @ locale @ ''.'' @ cu_cacheSuffix cfg)) = None \<longrightarrow>
              network e (r_url r1) = Inr resp \<and> fetch_log w1 = fetch_log w @ [r_url r1])"
proof -
  define key where "key = key_url e (siteId @ ''.'' @ locale @ ''.'' @ cu_cacheSuffix cfg)"
  have d1: "dispatch e r1 = RespondAjax cfg" using cfg1 so1 by (simp add: dispatch_def)
  have d2: "dispatch e r2 = RespondAjax cfg" using cfg2 so2 by (simp add: dispatch_def)
  have k1: "key_url e (ajax_key r1 cfg) = key"
    by (simp add: ajax_key_def site1 loc1 js_str_def key_def)
  have k2: "key_url e (ajax_key r2 cfg) = key"
    by (simp add: ajax_key_def site2 loc2 js_str_def key_def)
  obtain cs c where oc: "caches_open (caches w) (CACHE_ID e) = (cs, c)"
    by (cases "caches_open (caches w) (CACHE_ID e)")
  have m: "map_of cs (CACHE_ID e) = Some c"
    using oc by (auto simp: caches_open_def map_add_def split: option.splits)
  have c: "active_cache e w = c" using oc by (simp add: active_cache_def)
  have r1: "respondToAjax e w r1 (Some cfg) = (Inr resp, w1)"
    using first by (simp add: on_fetch_def d1 split: prod.splits)
  have stored: "ok resp \<longrightarrow> cache_match (active_cache e w1) key = Some resp"
    and log: "cache_match (active_cache e w) key = None \<longrightarrow>
                network e (r_url r1) = Inr resp \<and> fetch_log w1 = fetch_log w @ [r_url r1]"
  proof -
    show "ok resp \<longrightarrow> cache_match (active_cache e w1) key = Some resp"
    proof (cases "cache_match c key")
      case (Some cached)
      with r1 have "resp = cached" "w1 = w\<lparr>caches := cs\<rparr>"
        by (simp_all add: respondToAjax_def oc k1 Let_def)
      then show ?thesis using Some m by (simp add: active_cache_def caches_open_idem)
    next
      case None
      show ?thesis
      proof
        assume okr: "ok resp"
        from r1 None have net: "network e (r_url r1) = Inr resp"
          by (auto simp: respondToAjax_def oc k1 Let_def do_fetch_def split: sum.splits if_splits)
        with r1 None okr
        have w1: "w1 = w\<lparr>caches := caches_store cs (CACHE_ID e) (c @ [(key, resp)]),
                          fetch_log := fetch_log w @ [r_url r1]\<rparr>"
          by (auto simp: respondToAjax_def oc k1 Let_def do_fetch_def cache_put_def
                         cache_delete_absent [OF None])
        have m1: "map_of (caches w1) (CACHE_ID e) = Some (c @ [(key, resp)])"
          by (simp add: w1 map_of_caches_store m)
        show "cache_match (active_cache e w1) key = Some resp"
          by (simp add: active_cache_def caches_open_idem [OF m1] cache_match_put [OF None])
      qed
    qed
    show "cache_match (active_cache e w) key = None \<longrightarrow>
            network e (r_url r1) = Inr resp \<and> fetch_log w1 = fetch_log w @ [r_url r1]"
    proof
      assume "cache_match (active_cache e w) key = None"
      then have None: "cache_match c key = None" using c by simp
      from r1 None have net: "network e (r_url r1) = Inr resp"
        by (auto simp: respondToAjax_def oc k1 Let_def do_fetch_def split: sum.splits if_splits)
      from r1 None net have "fetch_log w1 = fetch_log w @ [r_url r1]"
        by (auto simp: respondToAjax_def oc k1 Let_def do_fetch_def split: if_splits)
      with net show "network e (r_url r1) = Inr resp \<and> fetch_log w1 = fetch_log w @ [r_url r1]"
        by simp
    qed
  qed
  have second: "cache_match (active_cache e w1) key = Some resp \<longrightarrow>
                  on_fetch e w1 r2 = (Some (AjaxResponse (Inr resp)), w1)"
  proof
    assume cached: "cache_match (active_cache e w1) key = Some resp"
    then obtain c1 where m1: "map_of (caches w1) (CACHE_ID e) = Some c1"
      and cm: "cache_match c1 key = Some resp"
      by (auto simp: active_cache_def caches_open_def cache_match_def split: option.splits)
    have "respondToAjax e w1 r2 (Some cfg) = (Inr resp, w1)"
      by (simp add: respondToAjax_def caches_open_idem [OF m1] k2 cm Let_def)
    with d2 show "on_fetch e w1 r2 = (Some (AjaxResponse (Inr resp)), w1)"
      by (simp add: on_fetch_def)
  qed
  from stored second log show ?thesis unfolding key_def by blast
qed

theorem ajax_key_ignores_url_witness:
  "on_fetch (shop_env True shop_network) fresh_world (ajax_request ''?a=1'')
     = (Some (AjaxResponse (Inr (stored ''<div>2 items</div>''))), after_minicart)
   \<and> cache_match (active_cache (shop_env True shop_network) after_minicart)
        ''https://shop.example/RefArch.en_US.MiniCartShow'' = Some (stored ''<div>2 items</div>'')
   \<and> on_fetch (shop_env True shop_network) after_minicart (ajax_request ''?a=2'')
     = (Some (AjaxResponse (Inr (stored ''<div>2 items</div>''))), after_minicart)
   \<and> fetch_log after_minicart = fetch_log fresh_world @ [r_url (ajax_request ''?a=1'')]"
proof -
  let ?e = "shop_env True shop_network"
  have a: "getAjaxCacheConfig ?e (ajax_request ''?a=1'') = Some minicart_url" by code_simp
  have b: "getAjaxCacheConfig ?e (ajax_request ''?a=2'') = Some minicart_url" by code_simp
  have s1: "headers_get (r_headers (ajax_request ''?a=1'')) X_SF_CC_SITEID = Some ''RefArch''"
    by code_simp
  have s2: "headers_get (r_headers (ajax_request ''?a=2'')) X_SF_CC_SITEID = Some ''RefArch''"
    by code_simp
  have l1: "headers_get (r_headers (ajax_request ''?a=1'')) X_SF_CC_REQUESTLOCALE = Some ''en_US''"
    by code_simp
  have l2: "headers_get (r_headers (ajax_request ''?a=2'')) X_SF_CC_REQUESTLOCALE = Some ''en_US''"
    by code_simp
  have f: "isSameOrigin ?e (r_url (ajax_request ''?a=1''))" by code_simp
  have g: "isSameOrigin ?e (r_url (ajax_request ''?a=2''))" by code_simp
  have h: "on_fetch ?e fresh_world (ajax_request ''?a=1'')
             = (Some (AjaxResponse (Inr (stored ''<div>2 items</div>''))), after_minicart)"
    by code_simp
  have okr: "ok (stored ''<div>2 items</div>'')" by code_simp
  have miss: "cache_match (active_cache ?e fresh_world)
                (key_url ?e (''RefArch'' @ ''.'' @ ''en_US'' @ ''.'' @ cu_cacheSuffix minicart_url)) = None"
    by code_simp
  have k: "key_url ?e (''RefArch'' @ ''.'' @ ''en_US'' @ ''.'' @ cu_cacheSuffix minicart_url)
             = ''https://shop.example/RefArch.en_US.MiniCartShow''"
    by code_simp
  note T = ajax_key_ignores_url [OF a b s1 s2 l1 l2 f g h]
  from T okr have c: "cache_match (active_cache ?e after_minicart)
        (key_url ?e (''RefArch'' @ ''.'' @ ''en_US'' @ ''.'' @ cu_cacheSuffix minicart_url))
      = Some (stored ''<div>2 items</div>'')"
    by blast
  from T c have d: "on_fetch ?e after_minicart (ajax_request ''?a=2'')
     = (Some (AjaxResponse (Inr (stored ''<div>2 items</div>''))), after_minicart)"
    by blast
  from T miss have l: "fetch_log after_minicart = fetch_log fresh_world @ [r_url (ajax_request ''?a=1'')]"
    by blast
  from h c d l show ?thesis unfolding k by (intro conjI)
qed

section \<open>Navigation\<close>

lemma pull_rejected:
  "queue s = Inl err # q \<Longrightarrow> \<not> s_done s
   \<Longrightarrow> pull (Suc n) e cid (s, w) = Some (s\<lparr>s_status := Errored err\<rparr>, w)"
  by (simp add: pull_step_def nextFromQueue_def)

text \<open>
  C7, as the code has it. What a navigation resolves to is decided before any of the
  rewritten body is read: the answer of \<open>cache.match(OFFLINE_URL)\<close> when the request
  cannot be built again (its cache mode is \<open>only-if-cached\<close>) or the navigation fetch
  fails, the synthetic page on 401, the response itself on 301, 302 or an opaque redirect,
  the answer of \<open>cache.match(OFFLINE_URL)\<close> again when the status is one that
  \<open>new Response\<close> refuses for a response with a body (below 200, above 599, or 204, 205,
  304), and the rewritten response otherwise. The rewritten response is returned before
  its body is read, so the \<open>catch\<close> does not cover the stream: when \<open>pull\<close> meets a
  rejected part in its queue the stream ends in error, and nothing replaces it with the
  offline page.
\<close>

theorem navigation_resolution:
  "(case addSkipParamsToRequest e req of
      Inl thrown \<Rightarrow>
        fst (respondToNavigation e w req)
          = Offline (cache_match (active_cache e (cleanTriggeredCache e w (r_url req)))
                       (key_url e (OFFLINE_URL e)))
    | Inr u \<Rightarrow>
        (case network e u of
           Inl err \<Rightarrow>
             fst (respondToNavigation e w req)
               = Offline (cache_match (active_cache e (cleanTriggeredCache e w (r_url req)))
                            (key_url e (OFFLINE_URL e)))
         | Inr r \<Rightarrow>
             fst (respondToNavigation e w req)
               = (if status r = 401 then BasicAuthFallback
                  else if redirect r then Unmodified r
                  else if status r < 200 \<or> 599 < status r \<or> status r \<in> set [204, 205, 304]
                  then Offline (cache_match (active_cache e (cleanTriggeredCache e w (r_url req)))
                                  (key_url e (OFFLINE_URL e)))
                  else Rewritten (createStream r (cachedParts (serverPreparedData e))))))
   \<and> (addSkipParamsToRequest e req = Inl TypeError \<longleftrightarrow> r_cache req = ''only-if-cached'')
   \<and> (queue s = Inl rejection # q \<and> \<not> s_done s \<longrightarrow>
        pull (Suc n) e cid (s, w') = Some (s\<lparr>s_status := Errored rejection\<rparr>, w'))"
proof (intro conjI impI)
  have off: "active_cache e (w0\<lparr>fetch_log := l\<rparr>) = active_cache e w0" for w0 l
    by (simp add: active_cache_def)
  have off': "fst (offline_response e w0)
               = Offline (cache_match (active_cache e w0) (key_url e (OFFLINE_URL e)))" for w0
    by (simp add: offline_response_def active_cache_def case_prod_unfold Let_def)
  show "case addSkipParamsToRequest e req of
      Inl thrown \<Rightarrow>
        fst (respondToNavigation e w req)
          = Offline (cache_match (active_cache e (cleanTriggeredCache e w (r_url req)))
                       (key_url e (OFFLINE_URL e)))
    | Inr u \<Rightarrow>
        (case network e u of
           Inl err \<Rightarrow>
             fst (respondToNavigation e w req)
               = Offline (cache_match (active_cache e (cleanTriggeredCache e w (r_url req)))
                            (key_url e (OFFLINE_URL e)))
         | Inr r \<Rightarrow>
             fst (respondToNavigation e w req)
               = (if status r = 401 then BasicAuthFallback
                  else if redirect r then Unmodified r
                  else if status r < 200 \<or> 599 < status r \<or> status r \<in> set [204, 205, 304]
                  then Offline (cache_match (active_cache e (cleanTriggeredCache e w (r_url req)))
                                  (key_url e (OFFLINE_URL e)))
                  else Rewritten (createStream r (cachedParts (serverPreparedData e)))))"
    by (auto simp: respondToNavigation_def do_fetch_def Let_def redirect_def off off' new_Response_def
                   null_body_status_def
             split: sum.splits)
next
  show "addSkipParamsToRequest e req = Inl TypeError \<longleftrightarrow> r_cache req = ''only-if-cached''"
    by (simp add: addSkipParamsToRequest_def new_Request_def)
next
  assume "queue s = Inl rejection # q \<and> \<not> s_done s"
  then show "pull (Suc n) e cid (s, w') = Some (s\<lparr>s_status := Errored rejection\<rparr>, w')"
    by (elim conjE) (rule pull_rejected)
qed

theorem navigation_resolution_witness:
  "fst (respondToNavigation (shop_env True shop_network) fresh_world (plain_request ''Home-Show'' NavigateMode))
     = Rewritten (createStream (page [''<html>$swheader$<main>'', ''</main>$swfooter$</html>''])
                    (cachedParts (getInitConfig True)))
   \<and> fst (respondToNavigation (shop_env True (\<lambda>u. Inr no_content)) offline_world
             (plain_request ''Home-Show'' NavigateMode))
     = Offline (Some (stored ''<h1>offline</h1>''))
   \<and> pull (Suc 0) (shop_env True shop_network) ''Build-1762041600000_dw4ae791b3''
        ((createStream (page [''<p>'']) [header_part])\<lparr>queue := [Inl FetchFailure]\<rparr>, fresh_world)
       = Some ((createStream (page [''<p>'']) [header_part])
                 \<lparr>queue := [Inl FetchFailure], s_status := Errored FetchFailure\<rparr>, fresh_world)"
proof -
  let ?e = "shop_env True shop_network"
  let ?e' = "shop_env True (\<lambda>u. Inr no_content)"
  let ?r = "plain_request ''Home-Show'' NavigateMode"
  let ?s = "(createStream (page [''<p>'']) [header_part])\<lparr>queue := [Inl FetchFailure]\<rparr>"
  let ?u = "''https://shop.example/on/demandware.store/Sites-RefArch-Site/en_US/Home-Show?sw_skipheader=true&sw_skipfooter=true''"
  have u: "addSkipParamsToRequest ?e ?r = Inr ?u" by code_simp
  have n: "network ?e ?u = Inr (page [''<html>$swheader$<main>'', ''</main>$swfooter$</html>''])"
    by code_simp
  have p: "status (page [''<html>$swheader$<main>'', ''</main>$swfooter$</html>'']) = 200
           \<and> \<not> redirect (page [''<html>$swheader$<main>'', ''</main>$swfooter$</html>''])"
    by code_simp
  have c: "cachedParts (serverPreparedData ?e) = cachedParts (getInitConfig True)"
    by (simp add: shop_env_def)
  have q: "queue ?s = Inl FetchFailure # [] \<and> \<not> s_done ?s" by code_simp
  note T = navigation_resolution
             [where e = ?e and req = ?r and w = fresh_world and s = ?s and rejection = FetchFailure
                and q = "[]" and n = 0 and cid = "''Build-1762041600000_dw4ae791b3''" and w' = fresh_world]
  from T u n p c have a: "fst (respondToNavigation ?e fresh_world ?r)
     = Rewritten (createStream (page [''<html>$swheader$<main>'', ''</main>$swfooter$</html>''])
                    (cachedParts (getInitConfig True)))"
    by simp
  from T q have b: "pull (Suc 0) ?e ''Build-1762041600000_dw4ae791b3'' (?s, fresh_world)
       = Some (?s\<lparr>s_status := Errored FetchFailure\<rparr>, fresh_world)"
    by blast
  have u': "addSkipParamsToRequest ?e' ?r = Inr ?u" by code_simp
  have n': "network ?e' ?u = Inr no_content" by (simp add: shop_env_def)
  have p': "status no_content = 204 \<and> \<not> redirect no_content" by code_simp
  have o: "cache_match (active_cache ?e' (cleanTriggeredCache ?e' offline_world (r_url ?r)))
             (key_url ?e' (OFFLINE_URL ?e')) = Some (stored ''<h1>offline</h1>'')"
    by code_simp
  note T' = navigation_resolution
             [where e = ?e' and req = ?r and w = offline_world and s = ?s and rejection = FetchFailure
                and q = "[]" and n = 0 and cid = "''Build-1762041600000_dw4ae791b3''" and w' = fresh_world]
  from T' u' n' p' o have d: "fst (respondToNavigation ?e' offline_world ?r)
     = Offline (Some (stored ''<h1>offline</h1>''))"
    by simp
  from a d b show ?thesis by simp
qed

text \<open>
  C7 as stated fails. The home page arrives, its header part is not cached and the fetch
  of the part fails: the navigation has already resolved to the rewritten response, whose
  body breaks off after \<open><html>\<close> with the stream in error.
\<close>

theorem fragment_failure_reaches_document:
  "(case respondToNavigation (shop_env True shop_network) fresh_world
           (plain_request ''Home-Show'' NavigateMode) of
      (Rewritten s, w) \<Rightarrow>
        map_option (\<lambda>(s', w'). (emitted s', s_status s'))
          (read_stream 10 (shop_env True shop_network) (s, w))
    | _ \<Rightarrow> None)
   = Some (''<html>'', Errored FetchFailure)"
  by code_simp

section \<open>Output of the stream rewriter\<close>

text \<open>
  C1 as stated fails. The body \<open><div>$swnavigation-sidebar$</div>\<close> holds the token once
  and the part resolves to \<open><aside/>\<close>. Read as one chunk it is rewritten; read as two
  chunks that split the token before its last byte, the carry-over of 20 bytes no longer
  holds the \<open>$\<close> that starts the token, and the body comes out as it went in.
\<close>

theorem long_token_split_not_replaced:
  "map_option (\<lambda>(s, w). (emitted s, s_status s))
     (read_stream 10 sidebar_env
        (createStream (page [''<div>$swnavigation-sidebar$</div>'']) [sidebar_part], fresh_world))
     = Some (''<div><aside/></div>'', Closed)
   \<and> map_option (\<lambda>(s, w). (emitted s, s_status s))
     (read_stream 10 sidebar_env
        (createStream (page [''<div>$swnavigation-sidebar'', ''$</div>'']) [sidebar_part], fresh_world))
     = Some (''<div>$swnavigation-sidebar$</div>'', Closed)"
  by code_simp

lemma pull_step_close:
  "queue s = [] \<or> s_done s \<Longrightarrow> pull_step e cid (s, w) = (False, s\<lparr>s_status := Closed\<rparr>, w)"
  by (simp add: pull_step_def)

lemma pull_step_end:
  assumes "queue s \<noteq> []" "\<not> s_done s" "nextFromQueue (queue s) = Inr (it, q')"
    "item_value it = None" "item_done it"
  shows "pull_step e cid (s, w) = (False, s\<lparr>queue := q', s_done := True, s_status := Closed\<rparr>, w)"
  using assms by (simp add: pull_step_def)

lemma pull_step_none:
  assumes "queue s \<noteq> []" "\<not> s_done s" "nextFromQueue (queue s) = Inr (it, q')"
    "item_value it = Some v" "\<not> item_done it"
    "scan_loop v (s_prefixBytes s) (s_configs s) 0 None = None"
  shows "pull_step e cid (s, w)
     = (True, s\<lparr>queue := Inr (carry (drop (length v - LAST_BYTES_COUNT) v)) # q' @ fst (pushed it (reader s)),
                 s_done := False,
                 s_output := (if length v > LAST_BYTES_COUNT
                              then s_output s @ [take (length v - LAST_BYTES_COUNT) v] else s_output s),
                 reader := snd (pushed it (reader s))\<rparr>, w)"
  using assms
  by (simp add: pull_step_def extract_none(1) pushed_def carry_def case_prod_unfold Let_def)

lemma pull_step_final:
  assumes "queue s \<noteq> []" "\<not> s_done s" "nextFromQueue (queue s) = Inr (it, q')"
    "item_value it = Some v" "item_done it"
    "scan_loop v (s_prefixBytes s) (s_configs s) 0 None = None"
  shows "pull_step e cid (s, w)
     = (True, s\<lparr>queue := q', s_done := True, s_output := s_output s @ [v], reader := reader s\<rparr>, w)"
  using assms
  by (simp add: pull_step_def extract_none(2) case_prod_unfold Let_def)

lemma pull_step_found:
  assumes "queue s \<noteq> []" "\<not> s_done s" "nextFromQueue (queue s) = Inr (it, q')"
    "item_value it = Some (x @ s_prefixBytes s @ placeholderBytes t @ y)" "\<not> item_done it"
    and le: "long_enough (s_configs s)" and pf: "prefix_free (s_configs s)" and p: "s_prefixBytes s \<noteq> []"
    and tl: "hd (s_prefixBytes s) \<notin> set (tl (s_prefixBytes s))"
    and t: "t \<in> set (s_configs s)"
    and nb: "none_before (s_prefixBytes s) (s_configs s)
               (x @ s_prefixBytes s @ placeholderBytes t @ y) (length x)"
    and nx: "\<not> ends_in_prefix_part (s_prefixBytes s) x"
    and f: "fetchOrCachePart e w t (s_siteId s) (s_locale s) cid = (fr, w')"
  shows "pull_step e cid (s, w)
     = (True, s\<lparr>queue := fr # Inr (plain y) # q' @ fst (pushed it (reader s)),
                 s_done := False,
                 s_output := s_output s @ [x],
                 reader := snd (pushed it (reader s))\<rparr>, w')"
  using assms(1-5) f
  by (simp add: pull_step_def extract_found [OF le pf p tl t nb nx] pushed_def plain_def case_prod_unfold Let_def)

lemma nextFromQueue_single:
  "\<not> item_merge it \<Longrightarrow> nextFromQueue (Inr it # q) = Inr (it, q)"
  by (cases q) (simp_all add: nextFromQueue_def)

lemma nextFromQueue_carry:
  "\<not> item_merge nx \<Longrightarrow>
   nextFromQueue (Inr (carry lo) # Inr nx # q)
     = Inr (\<lparr>item_value = Some (lo @ the_bytes (item_value nx)), item_done = item_done nx,
             item_merge = False, item_isBase = item_isBase nx\<rparr>, q)"
  by (cases q; cases "item_value nx") (simp_all add: nextFromQueue_def carry_def the_bytes_def)

lemma readChunk_bytes: "the_bytes (item_value (fst (readChunk rd))) @ concat (snd (readChunk rd)) = concat rd"
  by (cases rd) (simp_all add: readChunk_def the_bytes_def)

lemma readChunk_flags:
  "item_isBase (fst (readChunk rd))" "\<not> item_merge (fst (readChunk rd))"
  "item_done (fst (readChunk rd)) \<longleftrightarrow> rd = []"
  "item_done (fst (readChunk rd)) \<longleftrightarrow> item_value (fst (readChunk rd)) = None"
  "item_done (fst (readChunk rd)) \<Longrightarrow> snd (readChunk rd) = []"
  "length (snd (readChunk rd)) = length rd - 1"
  by (cases rd; simp add: readChunk_def)+

lemma pull_True: "pull_step e cid sw = (True, sw') \<Longrightarrow> pull (Suc n) e cid sw = pull n e cid sw'"
  by simp

lemma pull_False: "pull_step e cid sw = (False, sw') \<Longrightarrow> pull (Suc n) e cid sw = Some sw'"
  by simp

lemma read_ok_readChunk: "read_ok (fst (readChunk rd)) (snd (readChunk rd))"
  by (cases rd) (simp_all add: read_ok_def readChunk_def)

text \<open>Bytes that hold no token flow through unchanged.\<close>

lemma flush:
  fixes p :: bytes
  assumes le: "long_enough configs" and pf: "prefix_free configs" and p: "p \<noteq> []"
  shows "s_prefixBytes s = p \<Longrightarrow> s_configs s = configs \<Longrightarrow> \<not> s_done s \<Longrightarrow> queue s \<noteq> []
    \<Longrightarrow> nextFromQueue (queue s) = Inr (it, map (\<lambda>v. Inr (plain v)) vs @ map Inr rs)
    \<Longrightarrow> \<not> item_merge it
    \<Longrightarrow> (item_isBase it \<and> vs = [] \<and> rs = [] \<and> (item_done it \<longrightarrow> reader s = [])
           \<and> (\<not> item_done it \<longrightarrow> item_value it \<noteq> None))
        \<or> (\<not> item_isBase it \<and> \<not> item_done it \<and> item_value it \<noteq> None
           \<and> (\<exists>r. rs = [r] \<and> read_ok r (reader s)))
    \<Longrightarrow> token_free p configs (the_bytes (item_value it) @ concat vs
                       @ concat (map (\<lambda>r. the_bytes (item_value r)) rs) @ concat (reader s))
    \<Longrightarrow> \<exists>n s'. pull n e cid (s, w) = Some (s', w)
          \<and> emitted s' = emitted s @ the_bytes (item_value it) @ concat vs
                            @ concat (map (\<lambda>r. the_bytes (item_value r)) rs) @ concat (reader s)
          \<and> s_status s' = Closed"
proof (induction "length vs + 2 * length rs + length (reader s)
                   + (if item_isBase it \<and> \<not> item_done it then 1 else 0)"
       arbitrary: s it vs rs rule: less_induct)
  case less
  note pfx = less.prems(1) and cfg = less.prems(2) and nd = less.prems(3) and ne = less.prems(4)
    and nq = less.prems(5) and nm = less.prems(6) and shape = less.prems(7) and free = less.prems(8)
  show ?case
  proof (cases "item_done it")
    case True
    with shape have base: "item_isBase it" "vs = []" "rs = []" "reader s = []" by auto
    show ?thesis
    proof (cases "item_value it")
      case None
      have "pull_step e cid (s, w) = (False, s\<lparr>queue := [], s_done := True, s_status := Closed\<rparr>, w)"
        using pull_step_end [OF ne nd _ None True] nq base by simp
      then have "pull (Suc 0) e cid (s, w) = Some (s\<lparr>queue := [], s_done := True, s_status := Closed\<rparr>, w)"
        by (rule pull_False)
      moreover have "emitted (s\<lparr>queue := [], s_done := True, s_status := Closed\<rparr>)
                       = emitted s @ the_bytes (item_value it) @ concat vs
                            @ concat (map (\<lambda>r. the_bytes (item_value r)) rs) @ concat (reader s)"
        using base None by (simp add: emitted_def the_bytes_def)
      moreover have "s_status (s\<lparr>queue := [], s_done := True, s_status := Closed\<rparr>) = Closed" by simp
      ultimately show ?thesis by blast
    next
      case (Some v)
      have "token_free p configs v" using free Some base by (simp add: the_bytes_def)
      then have sc: "scan_loop v (s_prefixBytes s) (s_configs s) 0 None = None"
        unfolding pfx cfg by (rule scan_token_free [OF le pf p])
      let ?s1 = "s\<lparr>queue := [], s_done := True, s_output := s_output s @ [v], reader := reader s\<rparr>"
      have "pull_step e cid (s, w) = (True, ?s1, w)"
        using pull_step_final [OF ne nd _ Some True sc] nq base by simp
      then have "pull (Suc (Suc 0)) e cid (s, w) = pull (Suc 0) e cid (?s1, w)" by (rule pull_True)
      moreover have "pull_step e cid (?s1, w) = (False, ?s1\<lparr>s_status := Closed\<rparr>, w)"
        by (rule pull_step_close) simp
      then have "pull (Suc 0) e cid (?s1, w) = Some (?s1\<lparr>s_status := Closed\<rparr>, w)" by (rule pull_False)
      ultimately have "pull (Suc (Suc 0)) e cid (s, w) = Some (?s1\<lparr>s_status := Closed\<rparr>, w)"
        by (rule trans)
      moreover have "emitted (?s1\<lparr>s_status := Closed\<rparr>)
                       = emitted s @ the_bytes (item_value it) @ concat vs
                            @ concat (map (\<lambda>r. the_bytes (item_value r)) rs) @ concat (reader s)"
        using base Some by (simp add: emitted_def the_bytes_def)
      moreover have "s_status (?s1\<lparr>s_status := Closed\<rparr>) = Closed" by simp
      ultimately show ?thesis by blast
    qed
  next
    case False
    with shape obtain v where v: "item_value it = Some v" by auto
    define R where "R = concat vs @ concat (map (\<lambda>r. the_bytes (item_value r)) rs) @ concat (reader s)"
    have freeR: "token_free p configs (v @ R)" using free v by (simp add: the_bytes_def R_def)
    then have fv: "token_free p configs v" by (rule token_free_prefix [OF p])
    then have sc: "scan_loop v (s_prefixBytes s) (s_configs s) 0 None = None"
      unfolding pfx cfg by (rule scan_token_free [OF le pf p])
    define m where "m = length v - LAST_BYTES_COUNT"
    have "token_free p configs (drop m (v @ R))" using freeR by (rule token_free_drop [OF p])
    then have freeD: "token_free p configs (drop m v @ R)" by (simp add: m_def)
    define q' :: "(error + item) list" where "q' = map (\<lambda>v. Inr (plain v)) vs @ map Inr rs"
    define s1 where "s1 = s\<lparr>queue := Inr (carry (drop m v)) # q' @ fst (pushed it (reader s)),
                 s_done := False,
                 s_output := (if length v > LAST_BYTES_COUNT
                              then s_output s @ [take m v] else s_output s),
                 reader := snd (pushed it (reader s))\<rparr>"
    have step: "pull_step e cid (s, w) = (True, s1, w)"
      using pull_step_none [OF ne nd _ v False sc, of q' e cid w] nq
      by (simp add: s1_def m_def q'_def)
    have em1: "emitted s1 = emitted s @ take m v"
      by (simp add: s1_def emitted_def m_def)
    have s1_basic: "s_prefixBytes s1 = p" "s_configs s1 = configs" "\<not> s_done s1" "queue s1 \<noteq> []"
      using pfx cfg by (simp_all add: s1_def)
    have "\<exists>n s'. pull n e cid (s1, w) = Some (s', w)
          \<and> emitted s' = emitted s1 @ drop m v @ concat vs
                            @ concat (map (\<lambda>r. the_bytes (item_value r)) rs) @ concat (reader s)
          \<and> s_status s' = Closed"
    proof (cases "item_isBase it")
      case True
      with shape False have b: "vs = []" "rs = []" by auto
      let ?nx = "fst (readChunk (reader s))"
      let ?rd = "snd (readChunk (reader s))"
      let ?it1 = "\<lparr>item_value = Some (drop m v @ the_bytes (item_value ?nx)), item_done = item_done ?nx,
             item_merge = False, item_isBase = item_isBase ?nx\<rparr>"
      have q1: "queue s1 = [Inr (carry (drop m v)), Inr ?nx]" "reader s1 = ?rd"
        using True b by (simp_all add: s1_def q'_def pushed_def)
      have nq1: "nextFromQueue (queue s1) = Inr (?it1, map (\<lambda>v. Inr (plain v)) [] @ map Inr [])"
        unfolding q1 using nextFromQueue_carry [of ?nx "drop m v" "[]"] readChunk_flags(2) [of "reader s"]
        by simp
      have meas: "length ([]::bytes list) + 2 * length ([]::item list) + length (reader s1)
                   + (if item_isBase ?it1 \<and> \<not> item_done ?it1 then 1 else 0)
                 < length vs + 2 * length rs + length (reader s)
                   + (if item_isBase it \<and> \<not> item_done it then 1 else 0)"
        using True False b q1(2) readChunk_flags(3,6) [of "reader s"]
        by (cases "reader s") auto
      have shape1: "(item_isBase ?it1 \<and> ([]::bytes list) = [] \<and> ([]::item list) = []
                      \<and> (item_done ?it1 \<longrightarrow> reader s1 = [])
                      \<and> (\<not> item_done ?it1 \<longrightarrow> item_value ?it1 \<noteq> None))
        \<or> (\<not> item_isBase ?it1 \<and> \<not> item_done ?it1 \<and> item_value ?it1 \<noteq> None
           \<and> (\<exists>r. ([]::item list) = [r] \<and> read_ok r (reader s1)))"
        using readChunk_flags(1,5) [of "reader s"] q1(2) by simp
      have bytes1: "the_bytes (item_value ?it1) @ concat ([]::bytes list)
                       @ concat (map (\<lambda>r. the_bytes (item_value r)) ([]::item list)) @ concat (reader s1)
                     = drop m v @ concat (reader s)"
        using readChunk_bytes [of "reader s"] q1(2) by (simp add: the_bytes_def)
      have free1: "token_free p configs (the_bytes (item_value ?it1) @ concat ([]::bytes list)
                       @ concat (map (\<lambda>r. the_bytes (item_value r)) ([]::item list)) @ concat (reader s1))"
        unfolding bytes1 using freeD b by (simp add: R_def)
      from less.hyps [OF meas s1_basic nq1 _ shape1 free1]
      obtain n s' where "pull n e cid (s1, w) = Some (s', w)"
        "emitted s' = emitted s1 @ the_bytes (item_value ?it1) @ concat ([]::bytes list)
                       @ concat (map (\<lambda>r. the_bytes (item_value r)) ([]::item list)) @ concat (reader s1)"
        "s_status s' = Closed"
        by auto
      then show ?thesis unfolding bytes1 using b by auto
    next
      case nb: False
      with shape obtain r where r: "rs = [r]" "read_ok r (reader s)" by auto
      have rd1: "reader s1 = reader s" using nb by (simp add: s1_def pushed_def)
      show ?thesis
      proof (cases vs)
        case Nil
        let ?it1 = "\<lparr>item_value = Some (drop m v @ the_bytes (item_value r)), item_done = item_done r,
             item_merge = False, item_isBase = item_isBase r\<rparr>"
        have q1: "queue s1 = [Inr (carry (drop m v)), Inr r]"
          using nb r Nil by (simp add: s1_def q'_def pushed_def)
        have nq1: "nextFromQueue (queue s1) = Inr (?it1, map (\<lambda>v. Inr (plain v)) [] @ map Inr [])"
          unfolding q1 using nextFromQueue_carry [of r "drop m v" "[]"] r(2)
          by (simp add: read_ok_def)
        have meas: "length ([]::bytes list) + 2 * length ([]::item list) + length (reader s1)
                   + (if item_isBase ?it1 \<and> \<not> item_done ?it1 then 1 else 0)
                 < length vs + 2 * length rs + length (reader s)
                   + (if item_isBase it \<and> \<not> item_done it then 1 else 0)"
          using r rd1 by simp
        have shape1: "(item_isBase ?it1 \<and> ([]::bytes list) = [] \<and> ([]::item list) = []
                      \<and> (item_done ?it1 \<longrightarrow> reader s1 = [])
                      \<and> (\<not> item_done ?it1 \<longrightarrow> item_value ?it1 \<noteq> None))
          \<or> (\<not> item_isBase ?it1 \<and> \<not> item_done ?it1 \<and> item_value ?it1 \<noteq> None
             \<and> (\<exists>r. ([]::item list) = [r] \<and> read_ok r (reader s1)))"
          using r(2) rd1 by (simp add: read_ok_def)
        have bytes1: "the_bytes (item_value ?it1) @ concat ([]::bytes list)
                       @ concat (map (\<lambda>r. the_bytes (item_value r)) ([]::item list)) @ concat (reader s1)
                     = drop m v @ the_bytes (item_value r) @ concat (reader s)"
          using rd1 by (simp add: the_bytes_def)
        have free1: "token_free p configs (the_bytes (item_value ?it1) @ concat ([]::bytes list)
                       @ concat (map (\<lambda>r. the_bytes (item_value r)) ([]::item list)) @ concat (reader s1))"
          unfolding bytes1 using freeD r Nil by (simp add: R_def)
        from less.hyps [OF meas s1_basic nq1 _ shape1 free1]
        obtain n s' where "pull n e cid (s1, w) = Some (s', w)"
          "emitted s' = emitted s1 @ the_bytes (item_value ?it1) @ concat ([]::bytes list)
                       @ concat (map (\<lambda>r. the_bytes (item_value r)) ([]::item list)) @ concat (reader s1)"
          "s_status s' = Closed"
          by auto
        then show ?thesis unfolding bytes1 using r Nil by auto
      next
        case (Cons v2 vs')
        let ?it1 = "\<lparr>item_value = Some (drop m v @ the_bytes (item_value (plain v2))),
             item_done = item_done (plain v2),
             item_merge = False, item_isBase = item_isBase (plain v2)\<rparr>"
        have q1: "queue s1 = Inr (carry (drop m v)) # Inr (plain v2) # (map (\<lambda>v. Inr (plain v)) vs' @ map Inr rs)"
          using nb Cons by (simp add: s1_def q'_def pushed_def)
        have nq1: "nextFromQueue (queue s1) = Inr (?it1, map (\<lambda>v. Inr (plain v)) vs' @ map Inr rs)"
          unfolding q1 by (rule nextFromQueue_carry) (simp add: plain_def)
        have meas: "length vs' + 2 * length rs + length (reader s1)
                   + (if item_isBase ?it1 \<and> \<not> item_done ?it1 then 1 else 0)
                 < length vs + 2 * length rs + length (reader s)
                   + (if item_isBase it \<and> \<not> item_done it then 1 else 0)"
          using Cons rd1 by (simp add: plain_def)
        have shape1: "(item_isBase ?it1 \<and> vs' = [] \<and> rs = []
                      \<and> (item_done ?it1 \<longrightarrow> reader s1 = [])
                      \<and> (\<not> item_done ?it1 \<longrightarrow> item_value ?it1 \<noteq> None))
          \<or> (\<not> item_isBase ?it1 \<and> \<not> item_done ?it1 \<and> item_value ?it1 \<noteq> None
             \<and> (\<exists>r. rs = [r] \<and> read_ok r (reader s1)))"
          using r rd1 by (simp add: plain_def)
        have bytes1: "the_bytes (item_value ?it1) @ concat vs'
                       @ concat (map (\<lambda>r. the_bytes (item_value r)) rs) @ concat (reader s1)
                     = drop m v @ concat vs @ concat (map (\<lambda>r. the_bytes (item_value r)) rs) @ concat (reader s)"
          using rd1 Cons by (simp add: the_bytes_def plain_def)
        have free1: "token_free p configs (the_bytes (item_value ?it1) @ concat vs'
                       @ concat (map (\<lambda>r. the_bytes (item_value r)) rs) @ concat (reader s1))"
          unfolding bytes1 using freeD by (simp add: R_def)
        from less.hyps [OF meas s1_basic nq1 _ shape1 free1]
        obtain n s' where "pull n e cid (s1, w) = Some (s', w)"
          "emitted s' = emitted s1 @ the_bytes (item_value ?it1) @ concat vs'
                       @ concat (map (\<lambda>r. the_bytes (item_value r)) rs) @ concat (reader s1)"
          "s_status s' = Closed"
          by auto
        then show ?thesis unfolding bytes1 by auto
      qed
    qed
    then obtain n s' where r: "pull n e cid (s1, w) = Some (s', w)"
      "emitted s' = emitted s1 @ drop m v @ concat vs
                            @ concat (map (\<lambda>r. the_bytes (item_value r)) rs) @ concat (reader s)"
      "s_status s' = Closed" by blast
    have "pull (Suc n) e cid (s, w) = Some (s', w)" using pull_True [OF step] r(1) by simp
    moreover have "emitted s' = emitted s @ the_bytes (item_value it) @ concat vs
                            @ concat (map (\<lambda>r. the_bytes (item_value r)) rs) @ concat (reader s)"
      using r(2) em1 v by (simp add: the_bytes_def)
    ultimately show ?thesis using r(3) by blast
  qed
qed

lemma fetchOrCachePart_plain:
  "fetchOrCachePart e w t siteId locale cid = (Inr it, w') \<Longrightarrow> it = plain (the_bytes (item_value it))"
  by (auto simp: fetchOrCachePart_def plain_def the_bytes_def Let_def
           split: option.splits sum.splits prod.splits if_splits)

text \<open>The token has not been found yet: the head of the queue is a base item (perhaps
  merged with the carry-over) and the token lies in its bytes and those still to be read.\<close>

lemma token_pending:
  fixes p :: bytes
  assumes wf: "well_formed p configs" and t: "t \<in> set configs"
    and len: "length p + length (placeholderBytes t) \<le> LAST_BYTES_COUNT + 1"
    and free: "token_free p configs (frag @ post)"
  shows "s_prefixBytes s = p \<Longrightarrow> s_configs s = configs \<Longrightarrow> \<not> s_done s \<Longrightarrow> queue s \<noteq> []
    \<Longrightarrow> nextFromQueue (queue s) = Inr (it, [])
    \<Longrightarrow> item_isBase it \<Longrightarrow> \<not> item_merge it \<Longrightarrow> \<not> item_done it \<Longrightarrow> item_value it = Some buf
    \<Longrightarrow> buf @ concat (reader s) = x @ p @ placeholderBytes t @ post
    \<Longrightarrow> none_before p configs (x @ p @ placeholderBytes t @ post) (length x)
    \<Longrightarrow> \<not> ends_in_prefix_part p x
    \<Longrightarrow> fetchOrCachePart e w t (s_siteId s) (s_locale s) cid = (Inr (plain frag), w')
    \<Longrightarrow> \<exists>n s'. pull n e cid (s, w) = Some (s', w')
          \<and> emitted s' = emitted s @ x @ frag @ post \<and> s_status s' = Closed"
proof (induction "length (reader s)" arbitrary: s it buf x rule: less_induct)
  case less
  note pfx = less.prems(1) and cfg = less.prems(2) and nd = less.prems(3) and ne = less.prems(4)
    and nq = less.prems(5) and ib = less.prems(6) and nm = less.prems(7) and ndi = less.prems(8)
    and v = less.prems(9) and doc = less.prems(10) and nbx = less.prems(11) and nex = less.prems(12)
    and fetch = less.prems(13)
  from wf have p: "p \<noteq> []" and le: "long_enough configs" and pf: "prefix_free configs"
    and tl: "hd p \<notin> set (tl p)"
    by (simp_all add: well_formed_def)
  let ?T = "length p + length (placeholderBytes t)"
  let ?nx = "fst (readChunk (reader s))"
  let ?rd = "snd (readChunk (reader s))"
  have push: "pushed it (reader s) = ([Inr ?nx], ?rd)" using ib by (simp add: pushed_def)
  show ?case
  proof (cases "length x + ?T \<le> length buf")
    case True
    define y where "y = drop (length x + ?T) buf"
    have "take (length x + ?T) (buf @ concat (reader s)) = take (length x + ?T) (x @ p @ placeholderBytes t @ post)"
      using doc by simp
    then have tk: "take (length x + ?T) buf = x @ p @ placeholderBytes t" using True by simp
    have buf: "buf = x @ p @ placeholderBytes t @ y"
      using append_take_drop_id [of "length x + ?T" buf] unfolding tk y_def by simp
    have ypost: "y @ concat (reader s) = post" using doc unfolding buf by simp
    define s1 where "s1 = s\<lparr>queue := Inr (plain frag) # Inr (plain y) # [] @ fst (pushed it (reader s)),
                 s_done := False, s_output := s_output s @ [x],
                 reader := snd (pushed it (reader s))\<rparr>"
    have v': "item_value it = Some (x @ s_prefixBytes s @ placeholderBytes t @ y)"
      using v buf pfx by simp
    have "none_before p configs ((x @ p @ placeholderBytes t @ y) @ concat (reader s)) (length x)"
      using nbx ypost by simp
    then have nby: "none_before p configs (x @ p @ placeholderBytes t @ y) (length x)"
      by (rule none_before_prefix)
    have step: "pull_step e cid (s, w) = (True, s1, w')"
      unfolding s1_def
      using pull_step_found [OF ne nd nq v' ndi _ _ _ _ _ _ _ fetch] le pf p tl t nby nex pfx cfg by simp
    have q1: "queue s1 = [Inr (plain frag), Inr (plain y), Inr ?nx]" "reader s1 = ?rd"
      by (simp_all add: s1_def push)
    have nq1: "nextFromQueue (queue s1) = Inr (plain frag, map (\<lambda>v. Inr (plain v)) [y] @ map Inr [?nx])"
      unfolding q1 using nextFromQueue_single [of "plain frag" "[Inr (plain y), Inr ?nx]"]
      by (simp add: plain_def)
    have s1_basic: "s_prefixBytes s1 = p" "s_configs s1 = configs" "\<not> s_done s1" "queue s1 \<noteq> []"
      using pfx cfg by (simp_all add: s1_def)
    have shape1: "(item_isBase (plain frag) \<and> [y] = [] \<and> [?nx] = []
                      \<and> (item_done (plain frag) \<longrightarrow> reader s1 = [])
                      \<and> (\<not> item_done (plain frag) \<longrightarrow> item_value (plain frag) \<noteq> None))
        \<or> (\<not> item_isBase (plain frag) \<and> \<not> item_done (plain frag) \<and> item_value (plain frag) \<noteq> None
           \<and> (\<exists>r. [?nx] = [r] \<and> read_ok r (reader s1)))"
      using read_ok_readChunk [of "reader s"] q1(2) by (simp add: plain_def)
    have bytes1: "the_bytes (item_value (plain frag)) @ concat [y]
                       @ concat (map (\<lambda>r. the_bytes (item_value r)) [?nx]) @ concat (reader s1)
                     = frag @ post"
      using readChunk_bytes [of "reader s"] q1(2) ypost by (simp add: the_bytes_def plain_def)
    have free1: "token_free p configs (the_bytes (item_value (plain frag)) @ concat [y]
                       @ concat (map (\<lambda>r. the_bytes (item_value r)) [?nx]) @ concat (reader s1))"
      unfolding bytes1 by (rule free)
    from flush [OF le pf p s1_basic nq1 _ shape1 free1, of e cid w']
    obtain n s' where r: "pull n e cid (s1, w') = Some (s', w')"
      "emitted s' = emitted s1 @ the_bytes (item_value (plain frag)) @ concat [y]
                       @ concat (map (\<lambda>r. the_bytes (item_value r)) [?nx]) @ concat (reader s1)"
      "s_status s' = Closed"
      by (auto simp: plain_def)
    have "pull (Suc n) e cid (s, w) = Some (s', w')" using pull_True [OF step] r(1) by simp
    moreover have "emitted s' = emitted s @ x @ frag @ post"
      using r(2) unfolding bytes1 by (simp add: s1_def emitted_def)
    ultimately show ?thesis using r(3) by blast
  next
    case False
    then have short: "length buf < length x + ?T" by simp
    have rdne: "reader s \<noteq> []"
    proof
      assume "reader s = []"
      with doc have "buf = x @ p @ placeholderBytes t @ post" by simp
      with short show False by simp
    qed
    then obtain c rest where rd: "reader s = c # rest" by (cases "reader s") auto
    have "take (length buf) (buf @ concat (reader s)) = take (length buf) (x @ p @ placeholderBytes t @ post)"
      using doc by simp
    then have bt: "buf = take (length buf) (x @ p @ placeholderBytes t @ post)" by simp
    have short': "length buf < length x + length p + length (placeholderBytes t)"
      using short by simp
    have sc: "scan_loop buf (s_prefixBytes s) (s_configs s) 0 None = None"
      unfolding pfx cfg by (subst bt) (rule scan_partial_token [OF wf t nbx short'])
    define m where "m = length buf - LAST_BYTES_COUNT"
    have mb: "m \<le> length buf" by (simp add: m_def)
    have mx: "m \<le> length x" using short len by (simp add: m_def)
    define s1 where "s1 = s\<lparr>queue := Inr (carry (drop m buf)) # [] @ fst (pushed it (reader s)),
                 s_done := False,
                 s_output := (if length buf > LAST_BYTES_COUNT
                              then s_output s @ [take m buf] else s_output s),
                 reader := snd (pushed it (reader s))\<rparr>"
    have step: "pull_step e cid (s, w) = (True, s1, w)"
      using pull_step_none [OF ne nd nq v ndi sc, of e cid w] by (simp add: s1_def m_def)
    have "take m buf = take m (buf @ concat (reader s))" using mb by simp
    also have "\<dots> = take m x" unfolding doc using mx by simp
    finally have tm: "take m buf = take m x" .
    have em1: "emitted s1 = emitted s @ take m x"
      using tm by (simp add: s1_def emitted_def m_def)
    let ?it1 = "\<lparr>item_value = Some (drop m buf @ the_bytes (item_value ?nx)), item_done = item_done ?nx,
             item_merge = False, item_isBase = item_isBase ?nx\<rparr>"
    have push': "pushed it (c # rest)
        = ([Inr \<lparr>item_value = Some c, item_done = False, item_merge = False, item_isBase = True\<rparr>], rest)"
      using ib by (simp add: pushed_def readChunk_def)
    have q1: "queue s1 = [Inr (carry (drop m buf)), Inr ?nx]" "reader s1 = rest"
      by (simp_all add: s1_def rd push' readChunk_def)
    have nq1: "nextFromQueue (queue s1) = Inr (?it1, [])"
      unfolding q1 using nextFromQueue_carry [of ?nx "drop m buf" "[]"] readChunk_flags(2) [of "reader s"]
      by simp
    have nx: "item_value ?nx = Some c" "\<not> item_done ?nx" "item_isBase ?nx"
      using rd by (simp_all add: readChunk_def)
    have "drop m buf @ c @ concat rest = drop m (buf @ concat (reader s))" using mb rd by simp
    also have "\<dots> = drop m x @ p @ placeholderBytes t @ post" unfolding doc using mx by simp
    finally have doc1: "(drop m buf @ c) @ concat (reader s1) = drop m x @ p @ placeholderBytes t @ post"
      using q1(2) by simp
    have nbx1: "none_before p configs (drop m x @ p @ placeholderBytes t @ post) (length (drop m x))"
      by (rule none_before_drop [OF nbx p mx])
    have nex1: "\<not> ends_in_prefix_part p (drop m x)"
      using nex ends_in_prefix_part_drop by blast
    have fetch1: "fetchOrCachePart e w t (s_siteId s1) (s_locale s1) cid = (Inr (plain frag), w')"
      using fetch by (simp add: s1_def)
    have meas: "length (reader s1) < length (reader s)" using q1(2) rd by simp
    have basic1: "s_prefixBytes s1 = p" "s_configs s1 = configs" "\<not> s_done s1" "queue s1 \<noteq> []"
      using pfx cfg by (simp_all add: s1_def)
    have it1: "item_isBase ?it1" "\<not> item_merge ?it1" "\<not> item_done ?it1"
      "item_value ?it1 = Some (drop m buf @ c)"
      using nx by (simp_all add: the_bytes_def)
    from less.hyps [OF meas basic1 nq1 it1 doc1 nbx1 nex1 fetch1]
    obtain n s' where r: "pull n e cid (s1, w) = Some (s', w')"
      "emitted s' = emitted s1 @ drop m x @ frag @ post" "s_status s' = Closed"
      by blast
    have "pull (Suc n) e cid (s, w) = Some (s', w')" using pull_True [OF step] r(1) by simp
    moreover have "emitted s' = emitted s @ x @ frag @ post"
      using r(2) em1 by simp
    ultimately show ?thesis using r(3) by blast
  qed
qed

text \<open>
  C1, as the code has it. Let the placeholders of the worker be well formed, let one of
  them be at most 21 bytes long with its prefix, and let the body, in whatever chunks it
  arrives, be \<open>pre\<close>, that token, \<open>post\<close>, where no configured token stands at a position
  of \<open>pre\<close>, \<open>pre\<close> does not end in \<open>$\<close>, \<open>$s\<close> or \<open>$sw\<close> (a beginning of the prefix),
  and no configured token occurs in the bytes the part resolves to followed by \<open>post\<close>.
  When the part resolves, \<open>pull\<close> comes to an end with the controller closed, and the bytes
  enqueued are \<open>pre\<close>, the part, \<open>post\<close>.
\<close>

theorem single_token_rewritten:
  assumes enc: "encodePlaceholderConfigs parts = Inr (p, configs)"
    and wf: "well_formed p configs" and t: "t \<in> set configs"
    and len: "length p + length (placeholderBytes t) \<le> LAST_BYTES_COUNT + 1"
    and doc: "concat (body resp) = pre @ p @ placeholderBytes t @ post"
    and first: "none_before p configs (pre @ p @ placeholderBytes t @ post) (length pre)"
    and pre: "\<not> ends_in_prefix_part p pre"
    and rest: "token_free p configs (frag @ post)"
    and fetch: "fetchOrCachePart e w t (headers_get (headers resp) X_SF_CC_SITEID)
                  (headers_get (headers resp) X_SF_CC_REQUESTLOCALE) (CACHE_ID e) = (Inr it, w')"
    and val: "item_value it = Some frag"
  shows "\<exists>n s'. read_stream n e (createStream resp parts, w) = Some (s', w')
           \<and> emitted s' = pre @ frag @ post \<and> s_status s' = Closed"
proof -
  from wf have p: "p \<noteq> []" by (simp add: well_formed_def)
  have "body resp \<noteq> []" using doc p by auto
  then obtain c rest where b: "body resp = c # rest" by (cases "body resp") auto
  define s0 where "s0 = createStream resp parts"
  let ?it = "\<lparr>item_value = Some c, item_done = False, item_merge = False, item_isBase = True\<rparr>"
  have s0: "reader s0 = rest" "s_prefixBytes s0 = p" "s_configs s0 = configs" "queue s0 = [Inr ?it]"
    "\<not> s_done s0" "s_output s0 = []" "s_status s0 = Readable"
    "s_siteId s0 = headers_get (headers resp) X_SF_CC_SITEID"
    "s_locale s0 = headers_get (headers resp) X_SF_CC_REQUESTLOCALE"
    by (simp_all add: s0_def createStream_def enc b readChunk_def Let_def)
  have nq: "nextFromQueue (queue s0) = Inr (?it, [])"
    unfolding s0(4) by (rule nextFromQueue_single) simp
  have itp: "it = plain frag" using fetchOrCachePart_plain [OF fetch] val by (simp add: the_bytes_def)
  have fetch0: "fetchOrCachePart e w t (s_siteId s0) (s_locale s0) (CACHE_ID e) = (Inr (plain frag), w')"
    using fetch itp s0(8,9) by simp
  have doc0: "c @ concat (reader s0) = pre @ p @ placeholderBytes t @ post"
    using doc b s0(1) by simp
  from token_pending [OF wf t len rest s0(2,3,5) _ nq _ _ _ _ doc0 first pre fetch0]
  obtain n s' where r: "pull n e (CACHE_ID e) (s0, w) = Some (s', w')"
    "emitted s' = emitted s0 @ pre @ frag @ post" "s_status s' = Closed"
    using s0(4) by auto
  have "read_stream n e (createStream resp parts, w) = Some (s', w')"
    using r(1) s0(7) by (simp add: read_stream_def s0_def)
  moreover have "emitted s' = pre @ frag @ post" using r(2) s0(6) by (simp add: emitted_def)
  ultimately show ?thesis using r(3) by blast
qed

theorem single_token_rewritten_witness:
  "\<exists>n s'. read_stream n (shop_env True header_network)
             (createStream (page [''<p>$5 $sw</p>$swhea'', ''der$<main>$</main>'', ''</html>''])
                [header_part, footer_part],
              fresh_world) = Some (s', after_header)
         \<and> emitted s' = ''<p>$5 $sw</p><nav/><main>$</main></html>'' \<and> s_status s' = Closed"
proof -
  let ?e = "shop_env True header_network"
  let ?resp = "page [''<p>$5 $sw</p>$swhea'', ''der$<main>$</main>'', ''</html>'']"
  have enc: "encodePlaceholderConfigs [header_part, footer_part]
               = Inr (PLACEHOLDER_PREFIX, [header_config, footer_config])" by code_simp
  have wf: "well_formed PLACEHOLDER_PREFIX [header_config, footer_config]" by code_simp
  have t: "header_config \<in> set [header_config, footer_config]" by simp
  have len: "length PLACEHOLDER_PREFIX + length (placeholderBytes header_config) \<le> LAST_BYTES_COUNT + 1"
    by code_simp
  have doc: "concat (body ?resp)
               = ''<p>$5 $sw</p>'' @ PLACEHOLDER_PREFIX @ placeholderBytes header_config
                   @ ''<main>$</main></html>''"
    by code_simp
  have first: "none_before PLACEHOLDER_PREFIX [header_config, footer_config]
                 (''<p>$5 $sw</p>'' @ PLACEHOLDER_PREFIX @ placeholderBytes header_config
                    @ ''<main>$</main></html>'') (length ''<p>$5 $sw</p>'')" by code_simp
  have pre: "\<not> ends_in_prefix_part PLACEHOLDER_PREFIX ''<p>$5 $sw</p>''" by code_simp
  have rest: "token_free PLACEHOLDER_PREFIX [header_config, footer_config]
                (''<nav/>'' @ ''<main>$</main></html>'')" by code_simp
  have fetch: "fetchOrCachePart ?e fresh_world header_config
                 (headers_get (headers ?resp) X_SF_CC_SITEID)
                 (headers_get (headers ?resp) X_SF_CC_REQUESTLOCALE) (CACHE_ID ?e)
               = (Inr \<lparr>item_value = Some ''<nav/>'', item_done = False, item_merge = False,
                       item_isBase = False\<rparr>, after_header)"
    by code_simp
  have val: "item_value \<lparr>item_value = Some ''<nav/>'', item_done = False, item_merge = False,
                       item_isBase = False\<rparr> = Some ''<nav/>''" by simp
  from single_token_rewritten [OF enc wf t len doc first pre rest fetch val]
  show ?thesis by simp
qed

end
